theory Spec2Isabelle
  imports Main "HOL-Library.Word"
begin

section \<open>The settings store of nas-config-gui.c\<close>

text \<open>
  A shallow embedding of the configuration store of \<^verbatim>\<open>src/nas-config-gui.c\<close>:
  the \<^verbatim>\<open>Config\<close> struct, \<^verbatim>\<open>set_defaults\<close>, \<^verbatim>\<open>load_config\<close>, \<^verbatim>\<open>save_config\<close> and the
  two device-list handlers \<^verbatim>\<open>on_add_nas_clicked\<close> and \<^verbatim>\<open>on_remove_nas_clicked\<close>.
  C strings are \<open>string\<close>s (byte lists) without the terminating NUL; a C \<^verbatim>\<open>int\<close> field is
  a \<open>32 word\<close> read through \<open>sint\<close>. The widgets of \<^verbatim>\<open>AppData\<close> are not modelled.
\<close>

subsection \<open>Constants\<close>

definition MAX_LINE :: nat where
  "MAX_LINE = 1024"

definition MAX_NAS_DEVICES :: int where
  "MAX_NAS_DEVICES = 10"

definition NUL :: char where
  "NUL = CHR 0x00"

definition NEWLINE :: char where
  "NEWLINE = CHR 0x0A"

definition TAB :: char where
  "TAB = CHR 0x09"

subsection \<open>The C library functions the store calls\<close>

text \<open>
  \<^verbatim>\<open>strncpy(dst, src, n)\<close> into a buffer of \<open>n + 1\<close> bytes whose last byte is 0 and is
  never written (\<^verbatim>\<open>AppData app = {0}\<close> in \<^verbatim>\<open>main\<close>, \<^verbatim>\<open>char section[64] = ""\<close> in
  \<^verbatim>\<open>load_config\<close>): the buffer then holds the first \<open>n\<close> bytes of \<open>src\<close>.
\<close>

definition strncpy :: "string \<Rightarrow> nat \<Rightarrow> string" where
  "strncpy src n = take n src"

text \<open>The bytes of a buffer read as a C string: everything before the first NUL.\<close>

definition c_str :: "string \<Rightarrow> string" where
  "c_str buf = takeWhile (\<lambda>c. c \<noteq> NUL) buf"

text \<open>
  \<^verbatim>\<open>fgets(buf, n, file)\<close>: at most \<open>n - 1\<close> bytes, stopping after a newline, which is
  kept. \<open>fgets_chars k s\<close> reads at most \<open>k\<close> bytes of the unread stream \<open>s\<close> and returns
  them with the rest of the stream; \<open>fgets\<close> is \<open>None\<close> (NULL) at end of file.
\<close>

fun fgets_chars :: "nat \<Rightarrow> string \<Rightarrow> string \<times> string" where
  "fgets_chars k [] = ([], [])"
| "fgets_chars k (c # cs) =
     (if k = 0 then ([], c # cs)
      else if c = NEWLINE then ([c], cs)
      else (case fgets_chars (k - 1) cs of (l, r) \<Rightarrow> (c # l, r)))"

definition fgets :: "nat \<Rightarrow> string \<Rightarrow> (string \<times> string) option" where
  "fgets n s = (if s = [] then None else Some (fgets_chars (n - 1) s))"

definition isspace :: "char \<Rightarrow> bool" where
  "isspace c \<longleftrightarrow> c \<in> {CHR '' '', CHR 0x09, CHR 0x0A, CHR 0x0B, CHR 0x0C, CHR 0x0D}"

definition isdigit :: "char \<Rightarrow> bool" where
  "isdigit c \<longleftrightarrow> (48::nat) \<le> of_char c \<and> of_char c \<le> (57::nat)"

definition digit_value :: "char \<Rightarrow> int" where
  "digit_value c = int (of_char c) - 48"

text \<open>The value of the longest prefix of decimal digits, on top of \<open>acc\<close>.\<close>

fun digits_value :: "int \<Rightarrow> string \<Rightarrow> int" where
  "digits_value acc [] = acc"
| "digits_value acc (c # cs) =
     (if isdigit c then digits_value (acc * 10 + digit_value c) cs else acc)"

definition LONG_MAX :: int where
  "LONG_MAX = 2 ^ 63 - 1"

definition LONG_MIN :: int where
  "LONG_MIN = - (2 ^ 63)"

text \<open>
  \<^verbatim>\<open>strtol(s, NULL, 10)\<close>: white space is skipped, then one optional sign, then the digits;
  no digits give 0; a value outside \<^verbatim>\<open>long\<close> (64 bits) is clamped.
\<close>

definition strtol :: "string \<Rightarrow> int" where
  "strtol s =
     (case dropWhile isspace s of
        [] \<Rightarrow> 0
      | c # cs \<Rightarrow>
          if c = CHR ''-'' then max LONG_MIN (- digits_value 0 cs)
          else if c = CHR ''+'' then min LONG_MAX (digits_value 0 cs)
          else min LONG_MAX (digits_value 0 (c # cs)))"

text \<open>
  \<^verbatim>\<open>atoi(s)\<close> is \<^verbatim>\<open>(int) strtol(s, NULL, 10)\<close>: the conversion to \<^verbatim>\<open>int\<close> keeps the low
  32 bits. (The C standard leaves \<^verbatim>\<open>atoi\<close> undefined when the value does not fit an
  \<^verbatim>\<open>int\<close>; this is what glibc on a 64-bit Linux computes.)
\<close>

definition atoi :: "string \<Rightarrow> 32 word" where
  "atoi s = word_of_int (strtol s)"

text \<open>The decimal digits of a natural number, as \<^verbatim>\<open>printf\<close> writes them.\<close>

definition digit_char :: "nat \<Rightarrow> char" where
  "digit_char d = char_of (of_char CHR ''0'' + d)"

fun dec :: "nat \<Rightarrow> string" where
  "dec n = (if n < 10 then [digit_char n] else dec (n div 10) @ [digit_char (n mod 10)])"

declare dec.simps [simp del]

text \<open>\<^verbatim>\<open>printf("%d", i)\<close>.\<close>

definition printf_d :: "32 word \<Rightarrow> string" where
  "printf_d i = (if sint i < 0 then CHR ''-'' # dec (nat (- sint i)) else dec (nat (sint i)))"

subsection \<open>The Config struct\<close>

text \<open>
  \<^verbatim>\<open>nas_devices\<close> is the array of \<^verbatim>\<open>MAX_NAS_DEVICES\<close> buffers, of which the first
  \<^verbatim>\<open>nas_count\<close> are in use.
\<close>

record Config =
  config_path :: string
  home_networks :: string
  nas_devices :: "string list"
  nas_count :: int
  home_ac_interval :: "32 word"
  home_battery_interval :: "32 word"
  away_ac_interval :: "32 word"
  away_battery_interval :: "32 word"
  max_failed_attempts :: "32 word"
  min_battery_level :: "32 word"
  enable_notifications :: bool

text \<open>The device entries in use, in order.\<close>

definition devices :: "Config \<Rightarrow> string list" where
  "devices c = take (nat (nas_count c)) (nas_devices c)"

text \<open>The struct is well formed: ten buffers, and a count between 0 and 10.\<close>

definition config_wf :: "Config \<Rightarrow> bool" where
  "config_wf c \<longleftrightarrow>
     int (length (nas_devices c)) = MAX_NAS_DEVICES \<and> 0 \<le> nas_count c \<and> nas_count c \<le> MAX_NAS_DEVICES"

text \<open>
  The invariant of the device list: at most \<^verbatim>\<open>MAX_NAS_DEVICES\<close> entries, each of them not
  empty and with a \<^verbatim>\<open>'/'\<close>.
\<close>

definition devices_valid :: "Config \<Rightarrow> bool" where
  "devices_valid c \<longleftrightarrow>
     nas_count c \<le> MAX_NAS_DEVICES \<and> list_all (\<lambda>d. d \<noteq> [] \<and> CHR ''/'' \<in> set d) (devices c)"

subsection \<open>set_defaults\<close>

definition set_defaults :: "Config \<Rightarrow> Config" where
  "set_defaults config =
     config\<lparr>home_networks := '''',
            nas_count := 0,
            home_ac_interval := 15,
            home_battery_interval := 60,
            away_ac_interval := 180,
            away_battery_interval := 600,
            max_failed_attempts := 3,
            min_battery_level := 10,
            enable_notifications := True\<rparr>"

subsection \<open>load_config\<close>

text \<open>The characters \<^verbatim>\<open>' '\<close> and \<^verbatim>\<open>'\t'\<close> of the trimming loops and of \<^verbatim>\<open>strspn\<close>.\<close>

definition is_blank :: "char \<Rightarrow> bool" where
  "is_blank c \<longleftrightarrow> c = CHR '' '' \<or> c = TAB"

text \<open>
  The first test of the loop body:
  \<^verbatim>\<open>line[0] == '#' || line[0] == '\0' || strspn(line, " \t") == strlen(line)\<close>.
\<close>

definition skip_line :: "string \<Rightarrow> bool" where
  "skip_line line \<longleftrightarrow>
     (case line of [] \<Rightarrow> True | c # _ \<Rightarrow> c = CHR ''#'')
     \<or> length (takeWhile is_blank line) = length line"

text \<open>\<^verbatim>\<open>line[0] == '[' && line[strlen(line)-1] == ']'\<close>, on a line that is not empty.\<close>

definition section_header :: "string \<Rightarrow> bool" where
  "section_header line \<longleftrightarrow>
     (case line of [] \<Rightarrow> False | c # _ \<Rightarrow> c = CHR ''['' \<and> last line = CHR '']'')"

text \<open>
  \<^verbatim>\<open>strncpy(section, line + 1, sizeof(section) - 1); section[strlen(section) - 1] = '\0';\<close>
  with \<^verbatim>\<open>char section[64]\<close>.
\<close>

definition section_name :: "string \<Rightarrow> string" where
  "section_name line = butlast (strncpy (tl line) 63)"

text \<open>
  The key and the value of a line that contains \<^verbatim>\<open>'='\<close>: the bytes before and after the
  first \<^verbatim>\<open>'='\<close>, each with its leading spaces and tabs dropped.
\<close>

definition key_of :: "string \<Rightarrow> string" where
  "key_of line = dropWhile is_blank (takeWhile (\<lambda>c. c \<noteq> CHR ''='') line)"

definition value_of :: "string \<Rightarrow> string" where
  "value_of line = dropWhile is_blank (tl (dropWhile (\<lambda>c. c \<noteq> CHR ''='') line))"

text \<open>The chain of \<^verbatim>\<open>strcmp(key, ...)\<close> tests.\<close>

definition assign_key :: "string \<Rightarrow> string \<Rightarrow> Config \<Rightarrow> Config" where
  "assign_key key val c =
     (if key = ''home_networks'' then c\<lparr>home_networks := strncpy val (MAX_LINE - 1)\<rparr>
      else if key = ''home_ac_interval'' then c\<lparr>home_ac_interval := atoi val\<rparr>
      else if key = ''home_battery_interval'' then c\<lparr>home_battery_interval := atoi val\<rparr>
      else if key = ''away_ac_interval'' then c\<lparr>away_ac_interval := atoi val\<rparr>
      else if key = ''away_battery_interval'' then c\<lparr>away_battery_interval := atoi val\<rparr>
      else if key = ''max_failed_attempts'' then c\<lparr>max_failed_attempts := atoi val\<rparr>
      else if key = ''min_battery_level'' then c\<lparr>min_battery_level := atoi val\<rparr>
      else if key = ''enable_notifications'' then c\<lparr>enable_notifications := (val = ''true'')\<rparr>
      else c)"

text \<open>
  The line in the buffer after \<^verbatim>\<open>char *newline = strchr(line, '\n'); if (newline) *newline = '\0';\<close>:
  the C string in the buffer, up to its newline.
\<close>

definition line_of :: "string \<Rightarrow> string" where
  "line_of buf = takeWhile (\<lambda>ch. ch \<noteq> NEWLINE) (c_str buf)"

text \<open>
  The body of the \<^verbatim>\<open>while (fgets(...))\<close> loop on the buffer \<open>buf\<close> that \<^verbatim>\<open>fgets\<close>
  filled; the state is the current section and the \<^verbatim>\<open>Config\<close>.
\<close>

definition loop_body :: "string \<Rightarrow> string \<times> Config \<Rightarrow> string \<times> Config" where
  "loop_body buf st =
     (case st of (section, c) \<Rightarrow>
        let line = line_of buf in
        if skip_line line then (section, c)
        else if section_header line then (section_name line, c)
        else if CHR ''='' \<in> set line then (section, assign_key (key_of line) (value_of line) c)
        else if section = ''nas_devices'' \<and> CHR ''/'' \<in> set line \<and> nas_count c < MAX_NAS_DEVICES
        then (section,
              c\<lparr>nas_devices := (nas_devices c)[nat (nas_count c) := strncpy line (MAX_LINE - 1)],
                nas_count := nas_count c + 1\<rparr>)
        else (section, c))"

function load_loop :: "string \<Rightarrow> string \<times> Config \<Rightarrow> string \<times> Config" where
  "load_loop stream st =
     (case fgets MAX_LINE stream of
        None \<Rightarrow> st
      | Some (buf, rest) \<Rightarrow> load_loop rest (loop_body buf st))"
  by pat_completeness auto
termination
proof (relation "measure (\<lambda>(stream, st). length stream)")
  show "wf (measure (\<lambda>(stream, st). length stream))"
    by simp
next
  fix stream :: string and st :: "string \<times> Config" and x2 buf rest
  assume "fgets MAX_LINE stream = Some x2" and "(buf, rest) = x2"
  then have ne: "stream \<noteq> []" and rest: "rest = snd (fgets_chars (MAX_LINE - 1) stream)"
    by (auto simp: fgets_def split: if_splits)
  have shorter: "0 < k \<Longrightarrow> s \<noteq> [] \<Longrightarrow> length (snd (fgets_chars k s)) < length s" for k s
  proof (induction k s rule: fgets_chars.induct)
    case (1 k)
    then show ?case by simp
  next
    case (2 k c cs)
    show ?case
    proof (cases "c = NEWLINE \<or> cs = [] \<or> k - 1 = 0")
      case True
      with 2 show ?thesis
        by (cases cs) (auto split: prod.splits)
    next
      case False
      with 2 have "length (snd (fgets_chars (k - 1) cs)) < length cs"
        by simp
      with False 2 show ?thesis
        by (auto split: prod.splits)
    qed
  qed
  from ne rest have "length rest < length stream"
    using shorter [of "MAX_LINE - 1" stream] by (simp add: MAX_LINE_def)
  then show "((rest, loop_body buf st), (stream, st)) \<in> measure (\<lambda>(stream, st). length stream)"
    by simp
qed

declare load_loop.simps [simp del]

text \<open>
  The file system, as far as the store uses it: the content of each file that
  \<^verbatim>\<open>fopen(path, "r")\<close> can open, and the paths that \<^verbatim>\<open>fopen(path, "w")\<close> can open.
\<close>

record filesystem =
  files :: "string \<rightharpoonup> string"
  writable :: "string \<Rightarrow> bool"

text \<open>\<^verbatim>\<open>load_config\<close> returns its \<^verbatim>\<open>gboolean\<close> and the \<^verbatim>\<open>Config\<close> it leaves in \<^verbatim>\<open>app\<close>.\<close>

definition load_config :: "filesystem \<Rightarrow> Config \<Rightarrow> bool \<times> Config" where
  "load_config fs c =
     (case files fs (config_path c) of
        None \<Rightarrow> (False, set_defaults c)
      | Some stream \<Rightarrow> (True, snd (load_loop stream ('''', set_defaults c))))"

subsection \<open>save_config\<close>

text \<open>\<^verbatim>\<open>fprintf(file, ...)\<close> appends the formatted text to what the stream holds.\<close>

definition fprintf :: "string \<Rightarrow> string \<Rightarrow> string" where
  "fprintf out text = out @ text"

text \<open>
  \<^verbatim>\<open>for (int i = 0; i < nas_count; i++) fprintf(file, "%s\n", nas_devices[i]);\<close>
  from index \<open>i\<close> on. The index stays inside the array when the struct is well formed.
\<close>

function write_devices :: "string list \<Rightarrow> int \<Rightarrow> int \<Rightarrow> string \<Rightarrow> string" where
  "write_devices devs n i out =
     (if i < n then write_devices devs n (i + 1) (fprintf out (devs ! nat i @ [NEWLINE])) else out)"
  by pat_completeness auto
termination
  by (relation "measure (\<lambda>(devs, n, i, out). nat (n - i))") auto

declare write_devices.simps [simp del]

text \<open>The text that \<^verbatim>\<open>save_config\<close> writes to the opened file, call by call.\<close>

definition write_config :: "Config \<Rightarrow> string" where
  "write_config c =
     (let out = fprintf [] (''# NAS Monitor Configuration File'' @ [NEWLINE, NEWLINE]);
          out = fprintf out (''[networks]'' @ [NEWLINE]);
          out = fprintf out (''# Comma-separated list of home network SSIDs'' @ [NEWLINE]);
          out = fprintf out (''home_networks='' @ home_networks c @ [NEWLINE, NEWLINE]);
          out = fprintf out (''[nas_devices]'' @ [NEWLINE]);
          out = fprintf out (''# Format: host/share (one per line)'' @ [NEWLINE]);
          out = write_devices (nas_devices c) (nas_count c) 0 out;
          out = fprintf out ([NEWLINE] @ ''[intervals]'' @ [NEWLINE]);
          out = fprintf out (''# Check intervals in seconds'' @ [NEWLINE]);
          out = fprintf out (''home_ac_interval='' @ printf_d (home_ac_interval c) @ [NEWLINE]);
          out = fprintf out (''home_battery_interval='' @ printf_d (home_battery_interval c) @ [NEWLINE]);
          out = fprintf out (''away_ac_interval='' @ printf_d (away_ac_interval c) @ [NEWLINE]);
          out = fprintf out (''away_battery_interval='' @ printf_d (away_battery_interval c) @ [NEWLINE]);
          out = fprintf out ([NEWLINE] @ ''[behavior]'' @ [NEWLINE]);
          out = fprintf out (''max_failed_attempts='' @ printf_d (max_failed_attempts c) @ [NEWLINE]);
          out = fprintf out (''min_battery_level='' @ printf_d (min_battery_level c) @ [NEWLINE]);
          out = fprintf out (''enable_notifications=''
                  @ (if enable_notifications c then ''true'' else ''false'') @ [NEWLINE])
      in out)"

text \<open>
  \<^verbatim>\<open>save_config\<close> returns its \<^verbatim>\<open>gboolean\<close> and the file system it leaves: \<^verbatim>\<open>fopen(path, "w")\<close>
  fails and nothing is written, or the file is replaced by the text written.
\<close>

definition save_config :: "filesystem \<Rightarrow> Config \<Rightarrow> bool \<times> filesystem" where
  "save_config fs c =
     (if \<not> writable fs (config_path c) then (False, fs)
      else (True, fs\<lparr>files := (files fs)(config_path c \<mapsto> write_config c)\<rparr>))"

subsection \<open>The device list handlers\<close>

text \<open>
  \<^verbatim>\<open>on_add_nas_clicked\<close>: the dialog gives \<open>None\<close> when it is cancelled and the text of
  the entry when it is confirmed.
\<close>

definition on_add_nas_clicked :: "string option \<Rightarrow> Config \<Rightarrow> Config" where
  "on_add_nas_clicked response c =
     (case response of
        None \<Rightarrow> c
      | Some text \<Rightarrow>
          if length text > 0 \<and> CHR ''/'' \<in> set text \<and> nas_count c < MAX_NAS_DEVICES
          then c\<lparr>nas_devices := (nas_devices c)[nat (nas_count c) := strncpy text (MAX_LINE - 1)],
                 nas_count := nas_count c + 1\<rparr>
          else c)"

text \<open>
  \<^verbatim>\<open>for (int i = index; i < nas_count - 1; i++) strcpy(nas_devices[i], nas_devices[i + 1]);\<close>
  from index \<open>i\<close> on.
\<close>

function shift_devices :: "string list \<Rightarrow> int \<Rightarrow> int \<Rightarrow> string list" where
  "shift_devices devs n i =
     (if i < n - 1 then shift_devices (devs[nat i := devs ! nat (i + 1)]) n (i + 1) else devs)"
  by pat_completeness auto
termination
  by (relation "measure (\<lambda>(devs, n, i). nat (n - 1 - i))") auto

declare shift_devices.simps [simp del]

text \<open>
  \<^verbatim>\<open>on_remove_nas_clicked\<close>: \<open>None\<close> when no row is selected, else the index of the
  selected row.
\<close>

definition on_remove_nas_clicked :: "int option \<Rightarrow> Config \<Rightarrow> Config" where
  "on_remove_nas_clicked selected c =
     (case selected of
        None \<Rightarrow> c
      | Some index \<Rightarrow>
          c\<lparr>nas_devices := shift_devices (nas_devices c) (nas_count c) index,
            nas_count := nas_count c - 1\<rparr>)"

subsection \<open>Start-up\<close>

text \<open>
  \<^verbatim>\<open>AppData app = {0}; init_config_path(&app);\<close> in \<^verbatim>\<open>main\<close>: every byte of the struct is
  zero, then the path is set.
\<close>

definition zero_config :: "string \<Rightarrow> Config" where
  "zero_config path =
     \<lparr>config_path = path, home_networks = [], nas_devices = replicate 10 [], nas_count = 0,
      home_ac_interval = 0, home_battery_interval = 0, away_ac_interval = 0,
      away_battery_interval = 0, max_failed_attempts = 0, min_battery_level = 0,
      enable_notifications = False\<rparr>"

subsection \<open>The file format as the specification words it\<close>

text \<open>A text file made of the given lines, each ended by a newline.\<close>

definition unlines :: "string list \<Rightarrow> string" where
  "unlines ls = concat (map (\<lambda>l. l @ [NEWLINE]) ls)"

text \<open>
  The lines of the layout in section 6 of the specification, in its order: the header
  comment, the four sections with their comment lines, one line per device entry.
\<close>

definition spec_layout :: "Config \<Rightarrow> string list" where
  "spec_layout c =
     [''# NAS Monitor Configuration File'',
      [],
      ''[networks]'',
      ''# Comma-separated list of home network SSIDs'',
      ''home_networks='' @ home_networks c,
      [],
      ''[nas_devices]'',
      ''# Format: host/share (one per line)'']
     @ devices c
     @ [[],
        ''[intervals]'',
        ''# Check intervals in seconds'',
        ''home_ac_interval='' @ printf_d (home_ac_interval c),
        ''home_battery_interval='' @ printf_d (home_battery_interval c),
        ''away_ac_interval='' @ printf_d (away_ac_interval c),
        ''away_battery_interval='' @ printf_d (away_battery_interval c),
        [],
        ''[behavior]'',
        ''max_failed_attempts='' @ printf_d (max_failed_attempts c),
        ''min_battery_level='' @ printf_d (min_battery_level c),
        ''enable_notifications='' @ (if enable_notifications c then ''true'' else ''false'')]"

subsection \<open>The lines and the fields as the specification words them\<close>

text \<open>The buffers that the successive \<^verbatim>\<open>fgets\<close> calls of \<open>load_loop\<close> fill, in file order.\<close>

function read_buffers :: "string \<Rightarrow> string list" where
  "read_buffers stream =
     (case fgets MAX_LINE stream of
        None \<Rightarrow> []
      | Some (buf, rest) \<Rightarrow> buf # read_buffers rest)"
  by pat_completeness auto
termination
proof (relation "measure length")
  show "wf (measure length)"
    by simp
next
  fix stream :: string and x2 buf rest
  assume "fgets MAX_LINE stream = Some x2" and "(buf, rest) = x2"
  then have ne: "stream \<noteq> []" and rest: "rest = snd (fgets_chars (MAX_LINE - 1) stream)"
    by (auto simp: fgets_def split: if_splits)
  have shorter: "0 < k \<Longrightarrow> s \<noteq> [] \<Longrightarrow> length (snd (fgets_chars k s)) < length s" for k s
  proof (induction k s rule: fgets_chars.induct)
    case (1 k)
    then show ?case by simp
  next
    case (2 k c cs)
    show ?case
    proof (cases "c = NEWLINE \<or> cs = [] \<or> k - 1 = 0")
      case True
      with 2 show ?thesis
        by (cases cs) (auto split: prod.splits)
    next
      case False
      with 2 have "length (snd (fgets_chars (k - 1) cs)) < length cs"
        by simp
      with False 2 show ?thesis
        by (auto split: prod.splits)
    qed
  qed
  from ne rest have "length rest < length stream"
    using shorter [of "MAX_LINE - 1" stream] by (simp add: MAX_LINE_def)
  then show "(rest, stream) \<in> measure length"
    by simp
qed

declare read_buffers.simps [simp del]

text \<open>
  A key/value line: a buffer whose line is not skipped, is not a section header and
  contains \<^verbatim>\<open>'='\<close>.
\<close>

definition key_value_line :: "string \<Rightarrow> bool" where
  "key_value_line buf \<longleftrightarrow>
     \<not> skip_line (line_of buf) \<and> \<not> section_header (line_of buf) \<and> CHR ''='' \<in> set (line_of buf)"

text \<open>The fields of the Settings that a key can name, and the key of each.\<close>

datatype field =
  Home_networks
  | Home_ac_interval
  | Home_battery_interval
  | Away_ac_interval
  | Away_battery_interval
  | Max_failed_attempts
  | Min_battery_level
  | Enable_notifications

fun field_name :: "field \<Rightarrow> string" where
  "field_name Home_networks = ''home_networks''"
| "field_name Home_ac_interval = ''home_ac_interval''"
| "field_name Home_battery_interval = ''home_battery_interval''"
| "field_name Away_ac_interval = ''away_ac_interval''"
| "field_name Away_battery_interval = ''away_battery_interval''"
| "field_name Max_failed_attempts = ''max_failed_attempts''"
| "field_name Min_battery_level = ''min_battery_level''"
| "field_name Enable_notifications = ''enable_notifications''"

text \<open>A field holds a text, an integer or a boolean.\<close>

datatype setting = Text string | Number "32 word" | Flag bool

text \<open>
  The value of a key/value line, coerced for the field: the text itself, the integer that
  \<open>atoi\<close> reads, or whether the value is the token \<^verbatim>\<open>true\<close>.
\<close>

fun coerce :: "field \<Rightarrow> string \<Rightarrow> setting" where
  "coerce Home_networks v = Text v"
| "coerce Enable_notifications v = Flag (v = ''true'')"
| "coerce f v = Number (atoi v)"

fun field_value :: "field \<Rightarrow> Config \<Rightarrow> setting" where
  "field_value Home_networks c = Text (home_networks c)"
| "field_value Home_ac_interval c = Number (home_ac_interval c)"
| "field_value Home_battery_interval c = Number (home_battery_interval c)"
| "field_value Away_ac_interval c = Number (away_ac_interval c)"
| "field_value Away_battery_interval c = Number (away_battery_interval c)"
| "field_value Max_failed_attempts c = Number (max_failed_attempts c)"
| "field_value Min_battery_level c = Number (min_battery_level c)"
| "field_value Enable_notifications c = Flag (enable_notifications c)"

text \<open>The \<open>Config\<close> with the coerced value stored in the field, and nothing else changed.\<close>

fun store_field :: "field \<Rightarrow> string \<Rightarrow> Config \<Rightarrow> Config" where
  "store_field Home_networks v c = c\<lparr>home_networks := v\<rparr>"
| "store_field Home_ac_interval v c = c\<lparr>home_ac_interval := atoi v\<rparr>"
| "store_field Home_battery_interval v c = c\<lparr>home_battery_interval := atoi v\<rparr>"
| "store_field Away_ac_interval v c = c\<lparr>away_ac_interval := atoi v\<rparr>"
| "store_field Away_battery_interval v c = c\<lparr>away_battery_interval := atoi v\<rparr>"
| "store_field Max_failed_attempts v c = c\<lparr>max_failed_attempts := atoi v\<rparr>"
| "store_field Min_battery_level v c = c\<lparr>min_battery_level := atoi v\<rparr>"
| "store_field Enable_notifications v c = c\<lparr>enable_notifications := (v = ''true'')\<rparr>"

text \<open>A line that sets the field \<open>f\<close>: a key/value line whose key is the name of \<open>f\<close>.\<close>

definition sets_field :: "field \<Rightarrow> string \<Rightarrow> bool" where
  "sets_field f buf \<longleftrightarrow> key_value_line buf \<and> key_of (line_of buf) = field_name f"


text \<open>
  A value in which \<open>atoi\<close> finds no number: after the white space and one optional sign,
  the next byte is not a digit.
\<close>

definition no_number :: "string \<Rightarrow> bool" where
  "no_number v \<longleftrightarrow>
     (case dropWhile isspace v of
        [] \<Rightarrow> True
      | c # cs \<Rightarrow>
          if c = CHR ''-'' \<or> c = CHR ''+'' then (case cs of [] \<Rightarrow> True | d # _ \<Rightarrow> \<not> isdigit d)
          else \<not> isdigit c)"

subsection \<open>The lines of a file\<close>

text \<open>
  The lines of a text file: the bytes between its newlines, in file order. The last line
  may come without a newline.
\<close>

function file_lines :: "string \<Rightarrow> string list" where
  "file_lines content =
     (if content = [] then []
      else takeWhile (\<lambda>c. c \<noteq> NEWLINE) content
             # file_lines (tl (dropWhile (\<lambda>c. c \<noteq> NEWLINE) content)))"
  by pat_completeness auto
termination
proof (relation "measure length")
  show "wf (measure length)"
    by simp
next
  fix content :: string
  assume ne: "content \<noteq> []"
  have "length (tl (dropWhile (\<lambda>c. c \<noteq> NEWLINE) content)) < length content"
  proof (cases "dropWhile (\<lambda>c. c \<noteq> NEWLINE) content")
    case Nil
    show ?thesis
      unfolding Nil using ne by simp
  next
    case (Cons a r)
    have "length (dropWhile (\<lambda>c. c \<noteq> NEWLINE) content) \<le> length content"
      by (rule length_dropWhile_le)
    with Cons show ?thesis by simp
  qed
  then show "(tl (dropWhile (\<lambda>c. c \<noteq> NEWLINE) content), content) \<in> measure length"
    by simp
qed

declare file_lines.simps [simp del]

text \<open>Every line of the file fits the buffer of \<^verbatim>\<open>fgets\<close>: it has at most 1023 bytes.\<close>

definition short_lines :: "string \<Rightarrow> bool" where
  "short_lines content \<longleftrightarrow> list_all (\<lambda>l. length l \<le> 1023) (file_lines content)"

text \<open>
  The current section and the \<open>Config\<close> after the loop body has run on the given lines,
  one after the other, from the start of \<open>load_config\<close> on the struct \<open>c0\<close>.
\<close>

definition lines_state :: "Config \<Rightarrow> string list \<Rightarrow> string \<times> Config" where
  "lines_state c0 ls = foldl (\<lambda>st l. loop_body l st) ('''', set_defaults c0) ls"

subsection \<open>Saving, then starting again\<close>

text \<open>
  \<open>save_config\<close> on \<open>c\<close>, then a new start of the program: \<open>load_config\<close> on the struct
  \<open>c0\<close> that \<^verbatim>\<open>main\<close> has prepared. The result is the \<open>Config\<close> after the load.
\<close>

definition save_then_load :: "filesystem \<Rightarrow> Config \<Rightarrow> Config \<Rightarrow> Config" where
  "save_then_load fs c c0 = snd (load_config (snd (save_config fs c)) c0)"

text \<open>A line that one \<^verbatim>\<open>fgets\<close> call reads whole: a C string of at most 1023 bytes in one line.\<close>

definition plain_line :: "string \<Rightarrow> bool" where
  "plain_line l \<longleftrightarrow> NEWLINE \<notin> set l \<and> NUL \<notin> set l \<and> length l \<le> 1023"

text \<open>
  A device entry that \<open>load_config\<close> reads back as it was written: a C string of at most
  1023 bytes with a \<^verbatim>\<open>'/'\<close>, without \<^verbatim>\<open>'='\<close> and without a newline, that does not start
  with \<^verbatim>\<open>'#'\<close> and is not bracketed.
\<close>

definition device_line :: "string \<Rightarrow> bool" where
  "device_line d \<longleftrightarrow>
     CHR ''/'' \<in> set d \<and> CHR ''='' \<notin> set d \<and> NEWLINE \<notin> set d \<and> NUL \<notin> set d
     \<and> length d \<le> 1023
     \<and> (case d of [] \<Rightarrow> False | ch # _ \<Rightarrow> ch \<noteq> CHR ''#'')
     \<and> \<not> section_header d"

text \<open>
  A \<^verbatim>\<open>home_networks\<close> value that \<open>load_config\<close> reads back as it was written: a C string
  of at most 1009 bytes (the line \<^verbatim>\<open>home_networks=...\<close> then fits the buffer of
  \<^verbatim>\<open>fgets\<close>), without a newline, that does not start with a space or a tab.
\<close>

definition networks_value :: "string \<Rightarrow> bool" where
  "networks_value h \<longleftrightarrow>
     NEWLINE \<notin> set h \<and> NUL \<notin> set h \<and> length h \<le> 1009
     \<and> (case h of [] \<Rightarrow> True | ch # _ \<Rightarrow> \<not> is_blank ch)"

definition roundtrip_safe :: "Config \<Rightarrow> bool" where
  "roundtrip_safe c \<longleftrightarrow>
     config_wf c \<and> list_all device_line (devices c) \<and> networks_value (home_networks c)"

subsection \<open>Example inputs\<close>

definition example_path :: string where
  "example_path = ''/tmp/nas-monitor-config.conf''"

text \<open>A file system without any file, where every path can be written.\<close>

definition empty_fs :: filesystem where
  "empty_fs = \<lparr>files = Map.empty, writable = (\<lambda>path. True)\<rparr>"

text \<open>A file system whose only file is the configuration file, with the given content.\<close>

definition file_fs :: "string \<Rightarrow> filesystem" where
  "file_fs content = \<lparr>files = [example_path \<mapsto> content], writable = (\<lambda>path. True)\<rparr>"

text \<open>The store after start-up without a file, and with three devices added.\<close>

definition fresh_config :: Config where
  "fresh_config = snd (load_config empty_fs (zero_config example_path))"

definition three_devices :: Config where
  "three_devices =
     on_add_nas_clicked (Some ''backup/home'')
       (on_add_nas_clicked (Some ''nas2.local/photos'')
         (on_add_nas_clicked (Some ''nas1.local/media'') fresh_config))"

text \<open>The defaults with one device whose share name contains \<^verbatim>\<open>'='\<close>.\<close>

definition equals_device :: Config where
  "equals_device = on_add_nas_clicked (Some ''nas.local/share=1'') fresh_config"

text \<open>The defaults with a network list that starts with a space.\<close>

definition blank_networks :: Config where
  "blank_networks = fresh_config\<lparr>home_networks := '' Home,Office''\<rparr>"

text \<open>The defaults with one device that starts with \<^verbatim>\<open>'#'\<close>, and with one that is bracketed.\<close>

definition hash_device :: Config where
  "hash_device = on_add_nas_clicked (Some ''#1.local/media'') fresh_config"

definition bracket_device :: Config where
  "bracket_device = on_add_nas_clicked (Some ''[fe80::1]/[media]'') fresh_config"

text \<open>The defaults with a network list of 1010 bytes.\<close>

definition long_networks :: Config where
  "long_networks = fresh_config\<lparr>home_networks := replicate 1010 CHR ''a''\<rparr>"

text \<open>Settings with three devices, a network list and values that are not the defaults.\<close>

definition edited_config :: Config where
  "edited_config =
     three_devices\<lparr>home_networks := ''Home,Office'', home_ac_interval := 20,
       away_battery_interval := - 1, enable_notifications := False\<rparr>"

text \<open>
  A file of two lines with the same key. The second line has 1024 bytes: the key and
  1006 spaces, which are its first 1023 bytes, then the value \<^verbatim>\<open>7\<close>.
\<close>

definition cut_head :: string where
  "cut_head = ''home_ac_interval='' @ replicate 1006 CHR '' ''"

definition cut_line :: string where
  "cut_line = cut_head @ ''7''"

definition cut_file :: string where
  "cut_file = ''home_ac_interval=5'' @ NEWLINE # cut_line @ [NEWLINE]"




text \<open>
  A file of one line of 1030 bytes: 1010 spaces in front of a key/value line. The first
  1023 bytes of the line end inside the key.
\<close>

definition spaced_head :: string where
  "spaced_head = replicate 1010 CHR '' '' @ ''home_ac_inter''"

definition spaced_line :: string where
  "spaced_line = spaced_head @ ''val=abc''"

definition spaced_file :: string where
  "spaced_file = spaced_line @ [NEWLINE]"






text \<open>A device text of 1025 bytes whose only separator is byte 1024.\<close>

definition long_device :: string where
  "long_device = replicate 1023 CHR ''a'' @ ''/x''"

section \<open>Properties\<close>

subsection \<open>Defaults\<close>

lemma fresh_config_eq: "fresh_config = set_defaults (zero_config example_path)"
  by (simp add: fresh_config_def load_config_def empty_fs_def)

lemma fresh_config_wf: "config_wf fresh_config"
  by (simp add: fresh_config_eq set_defaults_def zero_config_def config_wf_def MAX_NAS_DEVICES_def)

text \<open>
  Claim C3. When the configuration file cannot be opened for reading, \<open>load_config\<close>
  returns FALSE and leaves the documented defaults: no home networks, no devices, the
  intervals 15, 60, 180 and 600, three failed attempts, battery level 10, notifications on.
\<close>

theorem load_config_missing_file:
  assumes "files fs (config_path c) = None"
  shows "fst (load_config fs c) = False
       \<and> home_networks (snd (load_config fs c)) = []
       \<and> nas_count (snd (load_config fs c)) = 0
       \<and> devices (snd (load_config fs c)) = []
       \<and> home_ac_interval (snd (load_config fs c)) = 15
       \<and> home_battery_interval (snd (load_config fs c)) = 60
       \<and> away_ac_interval (snd (load_config fs c)) = 180
       \<and> away_battery_interval (snd (load_config fs c)) = 600
       \<and> max_failed_attempts (snd (load_config fs c)) = 3
       \<and> min_battery_level (snd (load_config fs c)) = 10
       \<and> enable_notifications (snd (load_config fs c)) = True"
  using assms by (simp add: load_config_def set_defaults_def devices_def)

theorem load_config_missing_file_witness:
  "files empty_fs (config_path (zero_config example_path)) = None
   \<and> fst (load_config empty_fs (zero_config example_path)) = False
   \<and> home_networks (snd (load_config empty_fs (zero_config example_path))) = []
   \<and> devices (snd (load_config empty_fs (zero_config example_path))) = []
   \<and> home_ac_interval (snd (load_config empty_fs (zero_config example_path))) = 15
   \<and> away_battery_interval (snd (load_config empty_fs (zero_config example_path))) = 600
   \<and> enable_notifications (snd (load_config empty_fs (zero_config example_path))) = True"
proof -
  have h: "files empty_fs (config_path (zero_config example_path)) = None"
    by (simp add: empty_fs_def)
  show ?thesis
    using h load_config_missing_file [OF h] by simp
qed

subsection \<open>Adding a device\<close>

text \<open>
  Claim C2, as amended. \<open>on_add_nas_clicked\<close> leaves the \<open>Config\<close> as it is when the
  text is empty, has no \<^verbatim>\<open>'/'\<close>, or ten devices are stored. Otherwise it stores the first
  1023 bytes of the text (the whole text when it is no longer than that) as the entry
  after the last one, adds one to the count, and changes no other buffer and no other
  field.
\<close>

theorem on_add_nas_clicked_effect:
  "(d = [] \<or> CHR ''/'' \<notin> set d \<or> MAX_NAS_DEVICES \<le> nas_count c
      \<longrightarrow> on_add_nas_clicked (Some d) c = c)
   \<and> (d \<noteq> [] \<and> CHR ''/'' \<in> set d \<and> nas_count c < MAX_NAS_DEVICES \<and> config_wf c
      \<longrightarrow> nas_count (on_add_nas_clicked (Some d) c) = nas_count c + 1
        \<and> devices (on_add_nas_clicked (Some d) c) = devices c @ [take 1023 d]
        \<and> (length d \<le> 1023 \<longrightarrow> devices (on_add_nas_clicked (Some d) c) = devices c @ [d])
        \<and> (\<forall>j. j \<noteq> nat (nas_count c)
              \<longrightarrow> nas_devices (on_add_nas_clicked (Some d) c) ! j = nas_devices c ! j)
        \<and> (on_add_nas_clicked (Some d) c)\<lparr>nas_devices := nas_devices c, nas_count := nas_count c\<rparr> = c)"
proof (intro conjI impI)
  assume "d = [] \<or> CHR ''/'' \<notin> set d \<or> MAX_NAS_DEVICES \<le> nas_count c"
  then show "on_add_nas_clicked (Some d) c = c"
    by (auto simp: on_add_nas_clicked_def)
next
  assume a: "d \<noteq> [] \<and> CHR ''/'' \<in> set d \<and> nas_count c < MAX_NAS_DEVICES \<and> config_wf c"
  let ?c' = "on_add_nas_clicked (Some d) c"
  from a have c': "?c' = c\<lparr>nas_devices := (nas_devices c)[nat (nas_count c) := take 1023 d],
                           nas_count := nas_count c + 1\<rparr>"
    by (simp add: on_add_nas_clicked_def strncpy_def MAX_LINE_def)
  from a obtain m where m: "nas_count c = int m" and ml: "m < length (nas_devices c)"
    by (auto simp: config_wf_def elim!: nonneg_int_cases)
  show "nas_count ?c' = nas_count c + 1"
    by (simp add: c')
  show app: "devices ?c' = devices c @ [take 1023 d]"
    using ml by (simp add: c' devices_def m nat_add_distrib take_Suc_conv_app_nth)
  show "devices ?c' = devices c @ [d]" if "length d \<le> 1023"
    using app that by simp
  show "\<forall>j. j \<noteq> nat (nas_count c) \<longrightarrow> nas_devices ?c' ! j = nas_devices c ! j"
    by (simp add: c')
  show "?c'\<lparr>nas_devices := nas_devices c, nas_count := nas_count c\<rparr> = c"
    by (simp add: c')
qed

theorem on_add_nas_clicked_effect_witness:
  "CHR ''/'' \<notin> set ''noSlashHere''
   \<and> on_add_nas_clicked (Some ''noSlashHere'') fresh_config = fresh_config
   \<and> ''host/share'' \<noteq> [] \<and> CHR ''/'' \<in> set ''host/share''
   \<and> nas_count fresh_config < MAX_NAS_DEVICES \<and> config_wf fresh_config
   \<and> nas_count (on_add_nas_clicked (Some ''host/share'') fresh_config) = 1
   \<and> devices (on_add_nas_clicked (Some ''host/share'') fresh_config) = [''host/share'']"
proof -
  have h: "''host/share'' \<noteq> [] \<and> CHR ''/'' \<in> set ''host/share''
      \<and> nas_count fresh_config < MAX_NAS_DEVICES \<and> config_wf fresh_config"
    using fresh_config_wf
    by (simp add: fresh_config_eq set_defaults_def zero_config_def MAX_NAS_DEVICES_def)
  have r: "CHR ''/'' \<notin> set ''noSlashHere''"
    by simp
  have d0: "devices fresh_config = []" "nas_count fresh_config = 0"
    by (simp_all add: fresh_config_eq set_defaults_def devices_def)
  show ?thesis
    using h r d0 on_add_nas_clicked_effect [of "''host/share''" fresh_config]
      on_add_nas_clicked_effect [of "''noSlashHere''" fresh_config]
    by simp
qed

lemma take_replicate_append: "take n (replicate n a @ s) = replicate n a"
  by simp

lemma long_device_take: "take 1023 long_device = replicate 1023 CHR ''a''"
  unfolding long_device_def by (rule take_replicate_append)

lemma long_device_length: "length long_device = 1025"
  unfolding long_device_def by (simp only: length_append length_replicate) simp

lemma long_device_slash: "CHR ''/'' \<in> set long_device"
  unfolding long_device_def by (simp only: set_append) simp

lemma long_device_not_empty: "long_device \<noteq> []"
  using long_device_length by auto

lemma long_device_add:
  "on_add_nas_clicked (Some long_device) fresh_config
     = fresh_config\<lparr>nas_devices := (nas_devices fresh_config)[0 := replicate 1023 CHR ''a''],
                     nas_count := 1\<rparr>"
proof -
  have "nas_count fresh_config = 0"
    by (simp add: fresh_config_eq set_defaults_def)
  then show ?thesis
    using long_device_slash long_device_not_empty
    by (simp add: on_add_nas_clicked_def MAX_NAS_DEVICES_def MAX_LINE_def strncpy_def
        long_device_take)
qed

text \<open>
  Claim C2 as it is stated fails for a text of more than 1023 bytes: \<open>long_device\<close> is
  accepted, and the entry stored after the last one is not \<open>long_device\<close>.
\<close>

theorem on_add_nas_clicked_truncates:
  "long_device \<noteq> [] \<and> CHR ''/'' \<in> set long_device
   \<and> nas_count fresh_config < MAX_NAS_DEVICES
   \<and> nas_devices (on_add_nas_clicked (Some long_device) fresh_config) ! nat (nas_count fresh_config)
       \<noteq> long_device"
proof -
  have n: "nas_count fresh_config = 0" and l: "length (nas_devices fresh_config) = 10"
    by (simp_all add: fresh_config_eq set_defaults_def zero_config_def)
  have "nas_devices (on_add_nas_clicked (Some long_device) fresh_config) ! nat (nas_count fresh_config)
      = replicate 1023 CHR ''a''"
    unfolding long_device_add n using l by simp
  moreover have "replicate 1023 CHR ''a'' \<noteq> long_device"
  proof
    assume "replicate 1023 CHR ''a'' = long_device"
    then have "length (replicate 1023 CHR ''a'') = length long_device"
      by (rule arg_cong)
    then show False
      unfolding long_device_length length_replicate by simp
  qed
  ultimately show ?thesis
    using long_device_slash long_device_not_empty n by (simp add: MAX_NAS_DEVICES_def)
qed

subsection \<open>Removing a device\<close>

lemma shift_devices_length [simp]: "length (shift_devices devs n i) = length devs"
  by (induction devs n i rule: shift_devices.induct) (subst shift_devices.simps, simp)

lemma shift_devices_nth:
  "0 \<le> i \<Longrightarrow> n \<le> int (length devs) \<Longrightarrow> j < length devs \<Longrightarrow>
   shift_devices devs n i ! j = (if i \<le> int j \<and> int j < n - 1 then devs ! (j + 1) else devs ! j)"
proof (induction devs n i rule: shift_devices.induct)
  case (1 devs n i)
  obtain k where k: "i = int k"
    using "1.prems"(1) by (auto elim: nonneg_int_cases)
  show ?case
  proof (cases "i < n - 1")
    case False
    then show ?thesis by (subst shift_devices.simps) auto
  next
    case True
    have eq: "shift_devices devs n i = shift_devices (devs[k := devs ! Suc k]) n (i + 1)"
      using True by (subst shift_devices.simps) (simp add: k nat_add_distrib)
    have ih: "shift_devices (devs[k := devs ! Suc k]) n (i + 1) ! j =
        (if i + 1 \<le> int j \<and> int j < n - 1 then devs[k := devs ! Suc k] ! (j + 1)
         else devs[k := devs ! Suc k] ! j)"
      using "1.IH" [OF True] "1.prems" by (simp add: k nat_add_distrib)
    have kj: "i + 1 \<le> int j \<longleftrightarrow> k < j" "i \<le> int j \<longleftrightarrow> k \<le> j"
      unfolding k by linarith+
    show ?thesis
      unfolding eq ih kj using "1.prems"(3) True k
      by (cases "j = k") (auto simp: nth_list_update)
  qed
qed

lemma on_remove_devices:
  assumes "config_wf c" and "0 \<le> i" and "i < nas_count c"
  shows "devices (on_remove_nas_clicked (Some i) c)
           = take (nat i) (devices c) @ drop (nat i + 1) (devices c)"
proof (rule nth_equalityI)
  let ?c' = "on_remove_nas_clicked (Some i) c"
  let ?n = "nas_count c"
  have len: "int (length (nas_devices c)) = 10" and n10: "?n \<le> 10"
    using assms(1) by (simp_all add: config_wf_def MAX_NAS_DEVICES_def)
  show "length (devices ?c') = length (take (nat i) (devices c) @ drop (nat i + 1) (devices c))"
    using assms(2,3) len n10 by (simp add: devices_def on_remove_nas_clicked_def)
  fix j assume "j < length (devices ?c')"
  then have j: "int j < ?n - 1"
    using len n10 by (simp add: devices_def on_remove_nas_clicked_def)
  then have jl: "j < length (nas_devices c)" "j + 1 < length (nas_devices c)"
    using len n10 by linarith+
  have "devices ?c' ! j = shift_devices (nas_devices c) ?n i ! j"
    using j by (simp add: devices_def on_remove_nas_clicked_def)
  also have "\<dots> = (if i \<le> int j then nas_devices c ! (j + 1) else nas_devices c ! j)"
    using shift_devices_nth [of i ?n "nas_devices c" j] assms(2) len n10 jl j by simp
  also have "\<dots> = (take (nat i) (devices c) @ drop (nat i + 1) (devices c)) ! j"
  proof -
    obtain k where k: "i = int k"
      using assms(2) by (auto elim: nonneg_int_cases)
    obtain m where m: "nas_count c = int m"
      using assms(1) by (auto simp: config_wf_def elim: nonneg_int_cases)
    show ?thesis
      using j jl assms(3) unfolding k m devices_def
      by (auto simp: nth_append min_def)
  qed
  finally show "devices ?c' ! j = (take (nat i) (devices c) @ drop (nat i + 1) (devices c)) ! j" .
qed

text \<open>
  Claim C8. With \<open>n\<close> devices stored and a selected row \<open>0 \<le> i < n\<close>,
  \<open>on_remove_nas_clicked\<close> leaves \<open>n - 1\<close> devices: the entries before \<open>i\<close> stay where
  they are, every later entry moves down by one place, in the same order and with the same
  content, and no other field of the \<open>Config\<close> changes.
\<close>

theorem on_remove_nas_clicked_shifts:
  assumes "config_wf c" and "0 \<le> i" and "i < nas_count c"
  shows "nas_count (on_remove_nas_clicked (Some i) c) = nas_count c - 1
       \<and> devices (on_remove_nas_clicked (Some i) c)
           = take (nat i) (devices c) @ drop (nat i + 1) (devices c)
       \<and> (\<forall>j < nat i. devices (on_remove_nas_clicked (Some i) c) ! j = devices c ! j)
       \<and> (\<forall>j. nat i \<le> j \<and> int j < nas_count c - 1
             \<longrightarrow> devices (on_remove_nas_clicked (Some i) c) ! j = devices c ! (j + 1))
       \<and> (on_remove_nas_clicked (Some i) c)\<lparr>nas_devices := nas_devices c, nas_count := nas_count c\<rparr> = c"
proof -
  let ?c' = "on_remove_nas_clicked (Some i) c"
  have devs: "devices ?c' = take (nat i) (devices c) @ drop (nat i + 1) (devices c)"
    using assms by (rule on_remove_devices)
  have len: "length (devices c) = nat (nas_count c)"
    using assms(1) by (auto simp: devices_def config_wf_def)
  have before: "\<forall>j < nat i. devices ?c' ! j = devices c ! j"
    using assms(2,3) len by (simp add: devs nth_append)
  have after: "\<forall>j. nat i \<le> j \<and> int j < nas_count c - 1 \<longrightarrow> devices ?c' ! j = devices c ! (j + 1)"
  proof (intro allI impI)
    fix j assume j: "nat i \<le> j \<and> int j < nas_count c - 1"
    have "length (take (nat i) (devices c)) = nat i"
      using assms(2,3) len by simp
    then have "devices ?c' ! j = drop (nat i + 1) (devices c) ! (j - nat i)"
      using j unfolding devs by (simp add: nth_append)
    also have "\<dots> = devices c ! (j + 1)"
      using j len assms(2,3) by (subst nth_drop) simp_all
    finally show "devices ?c' ! j = devices c ! (j + 1)" .
  qed
  have "nas_count ?c' = nas_count c - 1"
    by (simp add: on_remove_nas_clicked_def)
  moreover have "?c'\<lparr>nas_devices := nas_devices c, nas_count := nas_count c\<rparr> = c"
    by (simp add: on_remove_nas_clicked_def)
  ultimately show ?thesis
    using devs before after by blast
qed

lemma three_devices_eq:
  "three_devices = fresh_config
     \<lparr>nas_devices := [''nas1.local/media'', ''nas2.local/photos'', ''backup/home'',
                        [], [], [], [], [], [], []],
       nas_count := 3\<rparr>"
  by (simp add: three_devices_def on_add_nas_clicked_def fresh_config_eq set_defaults_def
      zero_config_def MAX_NAS_DEVICES_def MAX_LINE_def strncpy_def numeral_eq_Suc)

lemma three_devices_wf: "config_wf three_devices"
  by (simp add: three_devices_eq config_wf_def MAX_NAS_DEVICES_def)

lemma three_devices_devices:
  "devices three_devices = [''nas1.local/media'', ''nas2.local/photos'', ''backup/home'']"
  by (simp add: three_devices_eq devices_def numeral_eq_Suc)

theorem on_remove_nas_clicked_shifts_witness:
  "config_wf three_devices \<and> (0::int) \<le> 1 \<and> 1 < nas_count three_devices
   \<and> nas_count (on_remove_nas_clicked (Some 1) three_devices) = 2
   \<and> devices (on_remove_nas_clicked (Some 1) three_devices) = [''nas1.local/media'', ''backup/home'']
   \<and> home_ac_interval (on_remove_nas_clicked (Some 1) three_devices) = 15"
proof -
  have h: "config_wf three_devices" "(0::int) \<le> 1" "1 < nas_count three_devices"
    using three_devices_wf by (simp_all add: three_devices_eq)
  have n: "nas_count three_devices = 3"
    by (simp add: three_devices_eq)
  have "home_ac_interval (on_remove_nas_clicked (Some 1) three_devices) = 15"
    by (simp add: on_remove_nas_clicked_def three_devices_eq fresh_config_eq set_defaults_def)
  then show ?thesis
    using h on_remove_nas_clicked_shifts [OF h] by (simp add: three_devices_devices n)
qed

subsection \<open>The text that save_config writes\<close>

lemma unlines_append: "unlines (xs @ ys) = unlines xs @ unlines ys"
  by (simp add: unlines_def)

lemma unlines_Cons: "unlines (x # xs) = x @ NEWLINE # unlines xs"
  by (simp add: unlines_def)

lemma unlines_Nil: "unlines [] = []"
  by (simp add: unlines_def)

lemma write_devices_unlines:
  "0 \<le> i \<Longrightarrow> n \<le> int (length devs) \<Longrightarrow>
   write_devices devs n i out = out @ unlines (drop (nat i) (take (nat n) devs))"
proof (induction devs n i out rule: write_devices.induct)
  case (1 devs n i out)
  obtain k where k: "i = int k"
    using "1.prems"(1) by (auto elim: nonneg_int_cases)
  show ?case
  proof (cases "i < n")
    case False
    then show ?thesis
      by (subst write_devices.simps) (simp add: unlines_Nil)
  next
    case True
    then obtain m where m: "n = int m" and km: "k < m"
      using k by (cases n) auto
    have ml: "m \<le> length devs"
      using "1.prems"(2) m by simp
    have "drop k (take m devs) = devs ! k # drop (Suc k) (take m devs)"
      using km ml Cons_nth_drop_Suc [of k "take m devs", symmetric] by simp
    then show ?thesis
      using True "1.IH" [OF True] "1.prems"
      by (subst write_devices.simps) (simp add: k m nat_add_distrib fprintf_def unlines_Cons)
  qed
qed

lemma write_config_layout:
  assumes "config_wf c"
  shows "write_config c = unlines (spec_layout c)"
proof -
  have "write_devices (nas_devices c) (nas_count c) 0 out = out @ unlines (devices c)" for out
    using assms write_devices_unlines [of 0 "nas_count c" "nas_devices c" out]
    by (simp add: config_wf_def devices_def)
  then show ?thesis
    by (simp add: write_config_def spec_layout_def fprintf_def unlines_append unlines_Cons
        unlines_Nil)
qed



subsection \<open>One line of the file\<close>

lemma takeWhile_all: "\<forall>x \<in> set xs. P x \<Longrightarrow> takeWhile P xs = xs"
  by (simp add: takeWhile_eq_all_conv)

lemma line_of_plain:
  "NUL \<notin> set l \<Longrightarrow> NEWLINE \<notin> set l \<Longrightarrow> line_of l = l"
  unfolding line_of_def c_str_def by (subst takeWhile_all, blast)+ simp

lemma line_of_newline:
  assumes "NUL \<notin> set l" and "NEWLINE \<notin> set l"
  shows "line_of (l @ NEWLINE # r) = l"
proof -
  have "c_str (l @ NEWLINE # r) = l @ takeWhile (\<lambda>c. c \<noteq> NUL) (NEWLINE # r)"
    unfolding c_str_def using assms(1) by (intro takeWhile_append2) auto
  also have "\<dots> = l @ NEWLINE # takeWhile (\<lambda>c. c \<noteq> NUL) r"
    by (simp add: NUL_def NEWLINE_def)
  finally have "line_of (l @ NEWLINE # r)
      = takeWhile (\<lambda>ch. ch \<noteq> NEWLINE) (l @ NEWLINE # takeWhile (\<lambda>c. c \<noteq> NUL) r)"
    by (simp add: line_of_def)
  also have "\<dots> = l @ takeWhile (\<lambda>ch. ch \<noteq> NEWLINE) (NEWLINE # takeWhile (\<lambda>c. c \<noteq> NUL) r)"
    using assms(2) by (intro takeWhile_append2) auto
  finally show ?thesis
    by simp
qed

lemma skip_line_blank_key:
  assumes "skip_line (k @ CHR ''='' # v)"
  shows "\<exists>r. dropWhile is_blank k = CHR ''#'' # r"
proof -
  have "length (takeWhile is_blank (k @ CHR ''='' # v)) \<le> length k"
  proof (cases "\<forall>x \<in> set k. is_blank x")
    case True
    then show ?thesis
      by (simp add: takeWhile_append2 is_blank_def TAB_def)
  next
    case False
    then have "takeWhile is_blank (k @ CHR ''='' # v) = takeWhile is_blank k"
      by (auto simp: takeWhile_append1)
    then show ?thesis
      by (simp add: length_takeWhile_le)
  qed
  then have "length (takeWhile is_blank (k @ CHR ''='' # v)) \<noteq> length (k @ CHR ''='' # v)"
    by simp
  with assms obtain r where "k = CHR ''#'' # r"
    by (cases k) (auto simp: skip_line_def)
  then show ?thesis
    by (simp add: is_blank_def TAB_def)
qed

lemma line_of_length: "length (line_of buf) \<le> length buf"
proof -
  have "length (line_of buf) \<le> length (c_str buf)"
    unfolding line_of_def by (rule length_takeWhile_le)
  also have "\<dots> \<le> length buf"
    unfolding c_str_def by (rule length_takeWhile_le)
  finally show ?thesis .
qed

lemma key_of_split:
  "CHR ''='' \<notin> set k \<Longrightarrow> key_of (k @ CHR ''='' # v) = dropWhile is_blank k"
  by (simp add: key_of_def takeWhile_append)

lemma value_of_split:
  "CHR ''='' \<notin> set k \<Longrightarrow> value_of (k @ CHR ''='' # v) = dropWhile is_blank v"
  by (simp add: value_of_def dropWhile_append)

lemma loop_body_key_value:
  assumes "key_value_line buf"
  shows "loop_body buf (section, c) = (section, assign_key (key_of (line_of buf)) (value_of (line_of buf)) c)"
  using assms by (simp add: loop_body_def key_value_line_def Let_def)

lemma assign_key_field:
  "length v \<le> 1023 \<Longrightarrow> assign_key (field_name f) v c = store_field f v c"
  by (cases f) (simp_all add: assign_key_def strncpy_def MAX_LINE_def)

lemma assign_key_unknown:
  assumes "\<forall>f. key \<noteq> field_name f"
  shows "assign_key key v c = c"
proof -
  have "key \<noteq> field_name Home_networks" "key \<noteq> field_name Home_ac_interval"
    "key \<noteq> field_name Home_battery_interval" "key \<noteq> field_name Away_ac_interval"
    "key \<noteq> field_name Away_battery_interval" "key \<noteq> field_name Max_failed_attempts"
    "key \<noteq> field_name Min_battery_level" "key \<noteq> field_name Enable_notifications"
    using assms by blast+
  then show ?thesis
    by (simp add: assign_key_def)
qed

lemma value_of_length: "length (value_of l) \<le> length l"
proof -
  have "length (value_of l) \<le> length (tl (dropWhile (\<lambda>c. c \<noteq> CHR ''='') l))"
    unfolding value_of_def by (rule length_dropWhile_le)
  also have "\<dots> \<le> length (dropWhile (\<lambda>c. c \<noteq> CHR ''='') l)"
    by simp
  also have "\<dots> \<le> length l"
    by (rule length_dropWhile_le)
  finally show ?thesis .
qed

lemma loop_body_store_field:
  assumes "key_value_line buf" and "length buf < MAX_LINE"
    and "key_of (line_of buf) = field_name f"
  shows "loop_body buf (section, c) = (section, store_field f (value_of (line_of buf)) c)"
proof -
  have "length (value_of (line_of buf)) \<le> 1023"
    using value_of_length [of "line_of buf"] line_of_length [of buf] assms(2)
    by (simp add: MAX_LINE_def)
  then show ?thesis
    using assms(1,3) by (simp add: loop_body_key_value assign_key_field)
qed

lemma loop_body_unknown_key:
  assumes "key_value_line buf" and "\<forall>f. key_of (line_of buf) \<noteq> field_name f"
  shows "loop_body buf (section, c) = (section, c)"
  using assms by (simp add: loop_body_key_value assign_key_unknown)

lemma loop_body_skip: "skip_line (line_of buf) \<Longrightarrow> loop_body buf st = st"
  by (cases st) (simp add: loop_body_def Let_def)


lemma field_name_not_comment: "field_name f \<noteq> CHR ''#'' # r"
  by (cases f) simp_all

lemma field_name_not_bracket: "field_name f \<noteq> CHR ''['' # r"
  by (cases f) simp_all

lemma field_name_inject: "field_name f = field_name g \<Longrightarrow> f = g"
  by (cases f; cases g) simp_all

subsection \<open>The buffers of a file\<close>

lemma fgets_chars_length: "length (fst (fgets_chars k s)) \<le> k"
proof (induction k s rule: fgets_chars.induct)
  case (1 k)
  then show ?case by simp
next
  case (2 k c cs)
  show ?case
  proof (cases "k = 0 \<or> c = NEWLINE")
    case True
    then show ?thesis by auto
  next
    case False
    with 2 have "length (fst (fgets_chars (k - 1) cs)) \<le> k - 1"
      by simp
    with False show ?thesis
      by (auto split: prod.splits)
  qed
qed

lemma fgets_length:
  assumes "fgets MAX_LINE s = Some (buf, rest)"
  shows "length buf < MAX_LINE"
proof -
  have "buf = fst (fgets_chars (MAX_LINE - 1) s)"
    using assms by (auto simp: fgets_def split: if_splits)
  then show ?thesis
    using fgets_chars_length [of "MAX_LINE - 1" s] by (simp add: MAX_LINE_def)
qed

lemma read_buffers_length:
  "buf \<in> set (read_buffers s) \<Longrightarrow> length buf < MAX_LINE"
proof (induction s rule: read_buffers.induct)
  case (1 stream)
  show ?case
  proof (cases "fgets MAX_LINE stream")
    case None
    with "1.prems" show ?thesis
      by (subst (asm) read_buffers.simps) simp
  next
    case (Some p)
    obtain b rest where p: "p = (b, rest)"
      by (cases p)
    from "1.prems" have "buf = b \<or> buf \<in> set (read_buffers rest)"
      by (subst (asm) read_buffers.simps) (simp add: Some p)
    then show ?thesis
      using "1.IH" [OF Some p [symmetric]] fgets_length [of stream b rest] Some p by auto
  qed
qed

lemma load_loop_foldl:
  "load_loop s st = foldl (\<lambda>st buf. loop_body buf st) st (read_buffers s)"
proof (induction s st rule: load_loop.induct)
  case (1 stream st)
  show ?case
  proof (cases "fgets MAX_LINE stream")
    case None
    then show ?thesis
      by (subst load_loop.simps, subst read_buffers.simps) simp
  next
    case (Some p)
    obtain b rest where p: "p = (b, rest)"
      by (cases p)
    show ?thesis
      using "1.IH" [OF Some p [symmetric]]
      by (subst load_loop.simps, subst read_buffers.simps) (simp add: Some p)
  qed
qed

subsection \<open>Key/value lines\<close>

lemma key_value_lineI:
  assumes "line_of buf = k @ CHR ''='' # v" and "dropWhile is_blank k = field_name f"
    and "CHR ''='' \<notin> set k"
  shows "key_value_line buf"
proof -
  have ns: "\<not> skip_line (line_of buf)"
    using skip_line_blank_key [of k v] assms(1,2) field_name_not_comment by auto
  have "\<not> section_header (line_of buf)"
  proof
    assume "section_header (line_of buf)"
    then obtain r where "k = CHR ''['' # r"
      unfolding assms(1) by (cases k) (auto simp: section_header_def)
    then have "dropWhile is_blank k = CHR ''['' # r"
      by (simp add: is_blank_def TAB_def)
    then show False
      using assms(2) field_name_not_bracket by simp
  qed
  with ns show ?thesis
    by (simp add: key_value_line_def assms(1))
qed

subsection \<open>Values that are not numbers or not the token true\<close>



subsection \<open>Trailing spaces and tabs\<close>

lemma loop_body_field_line:
  assumes "length buf < MAX_LINE" and "line_of buf = k @ CHR ''='' # v"
    and "CHR ''='' \<notin> set k" and "dropWhile is_blank k = field_name f"
  shows "loop_body buf (section, c) = (section, store_field f (dropWhile is_blank v) c)"
proof -
  have "key_value_line buf"
    using assms(2,4,3) by (rule key_value_lineI)
  moreover have "key_of (line_of buf) = field_name f"
    "value_of (line_of buf) = dropWhile is_blank v"
    using assms(2,3,4) by (simp_all add: key_of_split value_of_split)
  ultimately show ?thesis
    using loop_body_store_field [of buf f "section" c] assms(1) by simp
qed

lemma dropWhile_blank_prefix:
  assumes "\<forall>x \<in> set w. is_blank x" and "v = [] \<or> \<not> is_blank (hd v)"
  shows "dropWhile is_blank (w @ v) = v"
proof -
  have "dropWhile is_blank (w @ v) = dropWhile is_blank v"
    using assms(1) by (intro dropWhile_append2) auto
  also have "\<dots> = v"
    using assms(2) by (cases v) auto
  finally show ?thesis .
qed

subsection \<open>The same key on several lines\<close>

lemma field_value_store_field: "field_value f (store_field f v c) = coerce f v"
  by (cases f) simp_all

lemma field_value_assign_other:
  "key \<noteq> field_name f \<Longrightarrow> field_value f (assign_key key v c) = field_value f c"
  by (cases f) (simp_all add: assign_key_def)

lemma field_value_loop_body_other:
  assumes "\<not> (key_value_line buf \<and> key_of (line_of buf) = field_name f)"
  shows "field_value f (snd (loop_body buf st)) = field_value f (snd st)"
proof (cases st)
  case (Pair s c)
  show ?thesis
  proof (cases "key_value_line buf")
    case True
    with assms have "key_of (line_of buf) \<noteq> field_name f"
      by simp
    then show ?thesis
      using True by (simp add: Pair loop_body_key_value field_value_assign_other)
  next
    case False
    then have "snd (loop_body buf (s, c)) = c
        \<or> snd (loop_body buf (s, c))
            = c\<lparr>nas_devices := (nas_devices c)[nat (nas_count c) := strncpy (line_of buf) (MAX_LINE - 1)],
                nas_count := nas_count c + 1\<rparr>"
      by (auto simp: loop_body_def Let_def key_value_line_def)
    then show ?thesis
      unfolding Pair by (cases f) auto
  qed
qed

lemma field_value_foldl_other:
  assumes "\<forall>b \<in> set bufs. \<not> (key_value_line b \<and> key_of (line_of b) = field_name f)"
  shows "field_value f (snd (foldl (\<lambda>st buf. loop_body buf st) st bufs)) = field_value f (snd st)"
  using assms
proof (induction bufs arbitrary: st)
  case Nil
  then show ?case by simp
next
  case (Cons b bufs)
  have "field_value f (snd (foldl (\<lambda>st buf. loop_body buf st) (loop_body b st) bufs))
      = field_value f (snd (loop_body b st))"
    using Cons by simp
  also have "\<dots> = field_value f (snd st)"
    using Cons.prems by (intro field_value_loop_body_other) simp
  finally show ?case by simp
qed

subsection \<open>The invariant of the device list\<close>

lemma devices_append_entry:
  assumes "config_wf c" and "nas_count c < MAX_NAS_DEVICES"
  shows "devices (c\<lparr>nas_devices := (nas_devices c)[nat (nas_count c) := d],
                    nas_count := nas_count c + 1\<rparr>) = devices c @ [d]"
proof -
  from assms obtain m where m: "nas_count c = int m" and ml: "m < length (nas_devices c)"
    by (auto simp: config_wf_def elim!: nonneg_int_cases)
  show ?thesis
    using ml by (simp add: devices_def m nat_add_distrib take_Suc_conv_app_nth)
qed

lemma config_wf_append_entry:
  assumes "config_wf c" and "nas_count c < MAX_NAS_DEVICES"
  shows "config_wf (c\<lparr>nas_devices := (nas_devices c)[nat (nas_count c) := d],
                      nas_count := nas_count c + 1\<rparr>)"
  using assms by (simp add: config_wf_def)

lemma devices_valid_append_entry:
  assumes "config_wf c" and "devices_valid c" and "nas_count c < MAX_NAS_DEVICES"
    and "CHR ''/'' \<in> set d"
  shows "devices_valid (c\<lparr>nas_devices := (nas_devices c)[nat (nas_count c) := d],
                          nas_count := nas_count c + 1\<rparr>)"
proof -
  have "d \<noteq> []"
    using assms(4) by auto
  then show ?thesis
    using assms devices_append_entry [OF assms(1,3), of d]
    by (simp add: devices_valid_def)
qed

text \<open>
  A line without \<^verbatim>\<open>'='\<close> is stored as a device exactly when it is neither skipped nor a
  section header, the current section is \<^verbatim>\<open>nas_devices\<close>, the line has a \<^verbatim>\<open>'/'\<close> and fewer
  than ten devices are stored; otherwise the \<open>Config\<close> stays as it is.
\<close>

lemma loop_body_bare_line:
  assumes "CHR ''='' \<notin> set (line_of buf)" and "length buf < MAX_LINE"
  shows "snd (loop_body buf (section, c)) =
     (if \<not> skip_line (line_of buf) \<and> \<not> section_header (line_of buf)
         \<and> section = ''nas_devices'' \<and> CHR ''/'' \<in> set (line_of buf)
         \<and> nas_count c < MAX_NAS_DEVICES
      then c\<lparr>nas_devices := (nas_devices c)[nat (nas_count c) := line_of buf],
             nas_count := nas_count c + 1\<rparr>
      else c)"
proof -
  have "length (line_of buf) \<le> 1023"
    using line_of_length [of buf] assms(2) by (simp add: MAX_LINE_def)
  then show ?thesis
    using assms(1) by (simp add: loop_body_def Let_def strncpy_def MAX_LINE_def)
qed

lemma assign_key_devices:
  "nas_devices (assign_key key v c) = nas_devices c \<and> nas_count (assign_key key v c) = nas_count c"
  by (simp add: assign_key_def)

lemma loop_body_invariant:
  assumes "length buf < MAX_LINE" and "config_wf c" and "devices_valid c"
  shows "config_wf (snd (loop_body buf (section, c))) \<and> devices_valid (snd (loop_body buf (section, c)))"
proof (cases "CHR ''='' \<in> set (line_of buf)")
  case True
  then have "snd (loop_body buf (section, c)) = c
      \<or> snd (loop_body buf (section, c)) = assign_key (key_of (line_of buf)) (value_of (line_of buf)) c"
    by (simp add: loop_body_def Let_def)
  then show ?thesis
    using assms(2,3) assign_key_devices [of "key_of (line_of buf)" "value_of (line_of buf)" c]
    by (auto simp: config_wf_def devices_valid_def devices_def)
next
  case False
  show ?thesis
    unfolding loop_body_bare_line [OF False assms(1)]
    using assms(2,3) by (simp add: config_wf_append_entry devices_valid_append_entry)
qed

lemma foldl_loop_body_invariant:
  assumes "\<forall>b \<in> set bufs. length b < MAX_LINE"
    and "config_wf (snd st)" and "devices_valid (snd st)"
  shows "config_wf (snd (foldl (\<lambda>st buf. loop_body buf st) st bufs))
       \<and> devices_valid (snd (foldl (\<lambda>st buf. loop_body buf st) st bufs))"
  using assms
proof (induction bufs arbitrary: st)
  case Nil
  then show ?case by simp
next
  case (Cons b bufs)
  obtain s c where st: "st = (s, c)"
    by (cases st)
  have "config_wf (snd (loop_body b st)) \<and> devices_valid (snd (loop_body b st))"
    unfolding st using Cons.prems by (intro loop_body_invariant) (simp_all add: st)
  then show ?case
    using Cons.IH [of "loop_body b st"] Cons.prems(1) by simp
qed

text \<open>Loading keeps the invariant of the device list.\<close>

lemma load_config_devices_valid:
  assumes "config_wf c0"
  shows "config_wf (snd (load_config fs c0)) \<and> devices_valid (snd (load_config fs c0))"
proof -
  have d: "config_wf (set_defaults c0) \<and> devices_valid (set_defaults c0)"
    using assms
    by (simp add: config_wf_def devices_valid_def devices_def set_defaults_def MAX_NAS_DEVICES_def)
  show ?thesis
  proof (cases "files fs (config_path c0)")
    case None
    with d show ?thesis
      by (simp add: load_config_def)
  next
    case (Some content)
    have "\<forall>b \<in> set (read_buffers content). length b < MAX_LINE"
      using read_buffers_length by blast
    then show ?thesis
      using d foldl_loop_body_invariant [of "read_buffers content" "('''', set_defaults c0)"]
      by (simp add: load_config_def Some load_loop_foldl)
  qed
qed

text \<open>Removing the selected row keeps it.\<close>

lemma on_remove_devices_valid:
  assumes "config_wf c" and "devices_valid c" and "0 \<le> i" and "i < nas_count c"
  shows "devices_valid (on_remove_nas_clicked (Some i) c)"
proof -
  have "set (devices (on_remove_nas_clicked (Some i) c)) \<subseteq> set (devices c)"
    unfolding on_remove_devices [OF assms(1,3,4)]
    using set_take_subset [of "nat i" "devices c"] set_drop_subset [of "nat i + 1" "devices c"]
    by auto
  moreover have "nas_count (on_remove_nas_clicked (Some i) c) = nas_count c - 1"
    by (simp add: on_remove_nas_clicked_def)
  ultimately show ?thesis
    using assms(2) by (auto simp: devices_valid_def list_all_iff)
qed

text \<open>Adding a text of at most 1023 bytes keeps it.\<close>

lemma on_add_devices_valid:
  assumes "config_wf c" and "devices_valid c" and "length d \<le> 1023"
  shows "devices_valid (on_add_nas_clicked (Some d) c)"
proof (cases "0 < length d \<and> CHR ''/'' \<in> set d \<and> nas_count c < MAX_NAS_DEVICES")
  case True
  then have "on_add_nas_clicked (Some d) c
      = c\<lparr>nas_devices := (nas_devices c)[nat (nas_count c) := d], nas_count := nas_count c + 1\<rparr>"
    using assms(3) by (simp add: on_add_nas_clicked_def strncpy_def MAX_LINE_def)
  then show ?thesis
    using True assms(1,2) by (simp add: devices_valid_append_entry)
next
  case False
  then have "on_add_nas_clicked (Some d) c = c"
    by (auto simp: on_add_nas_clicked_def)
  then show ?thesis
    using assms(2) by simp
qed

text \<open>
  Claim C7 fails on the code. \<open>on_add_nas_clicked\<close> looks for the \<^verbatim>\<open>'/'\<close> in the whole text
  of the entry and then stores the first 1023 bytes only. After adding a text of 1025 bytes
  whose only \<^verbatim>\<open>'/'\<close> is byte 1024 to the defaults, the one stored device is 1023 times
  \<^verbatim>\<open>a\<close>: it has no \<^verbatim>\<open>'/'\<close>, and the invariant of the device list is broken.
\<close>

theorem on_add_nas_clicked_breaks_invariant:
  "config_wf fresh_config \<and> devices_valid fresh_config
   \<and> long_device \<noteq> [] \<and> CHR ''/'' \<in> set long_device
   \<and> devices (on_add_nas_clicked (Some long_device) fresh_config) = [replicate 1023 CHR ''a'']
   \<and> CHR ''/'' \<notin> set (replicate 1023 CHR ''a'')
   \<and> \<not> devices_valid (on_add_nas_clicked (Some long_device) fresh_config)"
proof -
  have v: "devices_valid fresh_config"
    by (simp add: devices_valid_def devices_def fresh_config_eq set_defaults_def
        MAX_NAS_DEVICES_def)
  have l: "length (nas_devices fresh_config) = 10"
    by (simp add: fresh_config_eq set_defaults_def zero_config_def)
  have d: "devices (on_add_nas_clicked (Some long_device) fresh_config) = [replicate 1023 CHR ''a'']"
    unfolding long_device_add devices_def using l
    by (cases "nas_devices fresh_config") simp_all
  have n: "CHR ''/'' \<notin> set (replicate 1023 CHR ''a'')"
    by simp
  have "\<not> devices_valid (on_add_nas_clicked (Some long_device) fresh_config)"
    unfolding devices_valid_def d using n by simp
  then show ?thesis
    using fresh_config_wf v long_device_not_empty long_device_slash d n by blast
qed

subsection \<open>Reading a file line by line\<close>

lemma fgets_chars_line:
  "NEWLINE \<notin> set l \<Longrightarrow> length l < k \<Longrightarrow>
   fgets_chars k (l @ NEWLINE # rest) = (l @ [NEWLINE], rest)"
proof (induction l arbitrary: k)
  case Nil
  then show ?case by simp
next
  case (Cons a l)
  from Cons.prems have "length l < k - 1" and "a \<noteq> NEWLINE" and "k \<noteq> 0"
    by auto
  with Cons.IH [of "k - 1"] Cons.prems(1) show ?case
    by simp
qed

lemma fgets_chars_full:
  "NEWLINE \<notin> set l \<Longrightarrow> length l = k \<Longrightarrow> fgets_chars k (l @ r) = (l, r)"
proof (induction l arbitrary: k)
  case Nil
  then show ?case by (cases r) simp_all
next
  case (Cons a l)
  from Cons.prems have "length l = k - 1" and "a \<noteq> NEWLINE" and "k \<noteq> 0"
    by auto
  with Cons.IH [of "k - 1"] Cons.prems(1) show ?case
    by simp
qed

lemma loop_body_same_line: "line_of b1 = line_of b2 \<Longrightarrow> loop_body b1 st = loop_body b2 st"
  by (simp add: loop_body_def)

lemma load_loop_Nil: "load_loop [] st = st"
  by (subst load_loop.simps) (simp add: fgets_def)

text \<open>
  A line of at most 1023 bytes is handled in one run of the loop body: it fits the buffer,
  with its newline or, at 1023 bytes, with the newline read alone as an empty line.
\<close>

lemma load_loop_line:
  assumes "NEWLINE \<notin> set l" and "NUL \<notin> set l" and "length l \<le> 1023"
  shows "load_loop (l @ NEWLINE # rest) st = load_loop rest (loop_body l st)"
proof (cases "length l < 1023")
  case True
  have "fgets MAX_LINE (l @ NEWLINE # rest) = Some (l @ [NEWLINE], rest)"
    using fgets_chars_line [OF assms(1), of 1023 rest] True
    by (simp add: fgets_def MAX_LINE_def)
  then have "load_loop (l @ NEWLINE # rest) st = load_loop rest (loop_body (l @ [NEWLINE]) st)"
    by (subst load_loop.simps) simp
  moreover have "line_of (l @ [NEWLINE]) = line_of l"
    using assms(1,2) by (simp add: line_of_newline line_of_plain)
  ultimately show ?thesis
    by (simp add: loop_body_same_line [of "l @ [NEWLINE]" l])
next
  case False
  with assms(3) have len: "length l = 1023"
    by simp
  have ne: "l \<noteq> []"
    using len by auto
  have "fgets MAX_LINE (l @ NEWLINE # rest) = Some (l, NEWLINE # rest)"
    using fgets_chars_full [OF assms(1) len, of "NEWLINE # rest"] ne
    by (simp add: fgets_def MAX_LINE_def)
  then have 1: "load_loop (l @ NEWLINE # rest) st = load_loop (NEWLINE # rest) (loop_body l st)"
    by (subst load_loop.simps) simp
  have "fgets MAX_LINE (NEWLINE # rest) = Some ([NEWLINE], rest)"
    by (simp add: fgets_def MAX_LINE_def)
  then have 2: "load_loop (NEWLINE # rest) st' = load_loop rest (loop_body [NEWLINE] st')" for st'
    by (subst load_loop.simps) simp
  have "line_of [NEWLINE] = []"
    by (simp add: line_of_def c_str_def NUL_def NEWLINE_def)
  then have 3: "loop_body [NEWLINE] st' = st'" for st'
    by (intro loop_body_skip) (simp add: skip_line_def)
  show ?thesis
    unfolding 1 2 3 ..
qed

lemma load_loop_unlines:
  assumes "\<forall>l \<in> set ls. NEWLINE \<notin> set l \<and> NUL \<notin> set l \<and> length l \<le> 1023"
  shows "load_loop (unlines ls) st = foldl (\<lambda>st l. loop_body l st) st ls"
  using assms
proof (induction ls arbitrary: st)
  case Nil
  then show ?case
    by (simp add: unlines_Nil load_loop_Nil)
next
  case (Cons l ls)
  have "load_loop (unlines (l # ls)) st = load_loop (unlines ls) (loop_body l st)"
    unfolding unlines_Cons using Cons.prems by (intro load_loop_line) simp_all
  then show ?case
    using Cons by simp
qed

subsection \<open>Numbers written by printf and read by atoi\<close>

lemma of_char_digit_char: "d < 10 \<Longrightarrow> of_char (digit_char d) = (48 + d :: nat)"
  by (simp add: digit_char_def)

lemma isdigit_digit_char: "d < 10 \<Longrightarrow> isdigit (digit_char d)"
  by (simp add: isdigit_def of_char_digit_char)

lemma digit_value_digit_char: "d < 10 \<Longrightarrow> digit_value (digit_char d) = int d"
  by (simp add: digit_value_def of_char_digit_char)

lemma dec_not_empty: "dec n \<noteq> []"
  by (subst dec.simps) simp

lemma dec_digits: "c \<in> set (dec n) \<Longrightarrow> isdigit c"
proof (induction n rule: dec.induct)
  case (1 n)
  show ?case
  proof (cases "n < 10")
    case True
    with "1.prems" show ?thesis
      by (subst (asm) dec.simps) (simp add: isdigit_digit_char)
  next
    case False
    with "1.prems" have "c \<in> set (dec (n div 10)) \<or> c = digit_char (n mod 10)"
      by (subst (asm) dec.simps) auto
    then show ?thesis
      using "1.IH" False by (auto simp: isdigit_digit_char)
  qed
qed

lemma dec_length: "n < 10 ^ k \<Longrightarrow> 0 < k \<Longrightarrow> length (dec n) \<le> k"
proof (induction n arbitrary: k rule: dec.induct)
  case (1 n)
  show ?case
  proof (cases "n < 10")
    case True
    then show ?thesis
      using "1.prems" by (subst dec.simps) simp
  next
    case False
    obtain j where k: "k = Suc j"
      using "1.prems"(2) by (cases k) auto
    have j0: "0 < j"
      using False "1.prems"(1) k by (cases j) auto
    have "n div 10 < 10 ^ j"
      using "1.prems"(1) k by (simp add: less_mult_imp_div_less mult.commute)
    then have "length (dec (n div 10)) \<le> j"
      using "1.IH" [OF False _ j0] by simp
    then show ?thesis
      using False k by (subst dec.simps) simp
  qed
qed

lemma digits_value_append:
  "\<forall>x \<in> set xs. isdigit x \<Longrightarrow> digits_value acc (xs @ ys) = digits_value (digits_value acc xs) ys"
  by (induction xs arbitrary: acc) simp_all

lemma digits_value_dec: "digits_value acc (dec n) = acc * 10 ^ length (dec n) + int n"
proof (induction n arbitrary: acc rule: dec.induct)
  case (1 n)
  show ?case
  proof (cases "n < 10")
    case True
    then show ?thesis
      by (subst (1 2) dec.simps) (simp add: isdigit_digit_char digit_value_digit_char)
  next
    case False
    have d: "\<forall>x \<in> set (dec (n div 10)). isdigit x"
      using dec_digits by blast
    have "digits_value acc (dec n)
        = digits_value (digits_value acc (dec (n div 10))) [digit_char (n mod 10)]"
      using False by (subst dec.simps) (simp add: digits_value_append [OF d])
    also have "\<dots> = (acc * 10 ^ length (dec (n div 10)) + int (n div 10)) * 10 + int (n mod 10)"
      using "1.IH" [OF False] by (simp add: isdigit_digit_char digit_value_digit_char)
    also have "\<dots> = acc * 10 ^ length (dec n) + int n"
    proof -
      have "length (dec n) = Suc (length (dec (n div 10)))"
        using False by (subst dec.simps) simp
      moreover have "int (n div 10) * 10 + int (n mod 10) = int n"
        by (simp add: zdiv_int zmod_int)
      ultimately show ?thesis
        by (simp add: algebra_simps)
    qed
    finally show ?thesis .
  qed
qed

lemma isdigit_other:
  "isdigit c \<Longrightarrow> \<not> isspace c \<and> \<not> is_blank c \<and> c \<noteq> CHR ''-'' \<and> c \<noteq> CHR ''+''
     \<and> c \<noteq> CHR ''='' \<and> c \<noteq> NUL \<and> c \<noteq> NEWLINE"
  by (auto simp: isdigit_def isspace_def is_blank_def TAB_def NUL_def NEWLINE_def)

lemma strtol_dec: "strtol (dec n) = min LONG_MAX (int n)"
proof -
  obtain c cs where d: "dec n = c # cs"
    using dec_not_empty [of n] by (cases "dec n") auto
  then have "isdigit c"
    using dec_digits [of c n] by simp
  then have "\<not> isspace c" "c \<noteq> CHR ''-''" "c \<noteq> CHR ''+''"
    using isdigit_other by blast+
  then have "strtol (dec n) = min LONG_MAX (digits_value 0 (dec n))"
    by (simp add: strtol_def d)
  then show ?thesis
    by (simp add: digits_value_dec)
qed

lemma strtol_minus_dec: "strtol (CHR ''-'' # dec n) = max LONG_MIN (- int n)"
  by (simp add: strtol_def isspace_def digits_value_dec)

lemma atoi_printf_d: "atoi (printf_d w) = w"
proof -
  have b: "- (2 ^ 31) \<le> sint w" "sint w < 2 ^ 31"
    using sint_range_size [of w] by (simp_all add: word_size)
  show ?thesis
  proof (cases "sint w < 0")
    case True
    then have "atoi (printf_d w) = word_of_int (max LONG_MIN (- int (nat (- sint w))))"
      by (simp add: atoi_def printf_d_def strtol_minus_dec)
    also have "\<dots> = word_of_int (sint w)"
      using True b by (simp add: LONG_MIN_def max_def)
    finally show ?thesis by simp
  next
    case False
    then have "atoi (printf_d w) = word_of_int (min LONG_MAX (int (nat (sint w))))"
      by (simp add: atoi_def printf_d_def strtol_dec)
    also have "\<dots> = word_of_int (sint w)"
      using False b by (simp add: LONG_MAX_def min_def)
    finally show ?thesis by simp
  qed
qed

lemma printf_d_chars:
  "c \<in> set (printf_d w) \<Longrightarrow> c \<noteq> CHR ''='' \<and> c \<noteq> NUL \<and> c \<noteq> NEWLINE \<and> \<not> is_blank c"
proof -
  assume "c \<in> set (printf_d w)"
  then have "c = CHR ''-'' \<or> isdigit c"
    using dec_digits by (auto simp: printf_d_def split: if_splits)
  then show ?thesis
    using isdigit_other [of c] by (auto simp: NUL_def NEWLINE_def is_blank_def TAB_def)
qed

lemma printf_d_length: "length (printf_d w) \<le> 11"
proof -
  have b: "- (2 ^ 31) \<le> sint w" "sint w < 2 ^ 31"
    using sint_range_size [of w] by (simp_all add: word_size)
  have "nat \<bar>sint w\<bar> < 10 ^ 10"
    using b by simp
  then have "length (dec (nat \<bar>sint w\<bar>)) \<le> 10"
    by (intro dec_length) simp_all
  then show ?thesis
    by (auto simp: printf_d_def abs_if)
qed

lemma printf_d_not_blank: "dropWhile is_blank (printf_d w) = printf_d w"
proof -
  have "printf_d w \<noteq> []"
    by (simp add: printf_d_def dec_not_empty)
  then obtain c cs where p: "printf_d w = c # cs"
    by (cases "printf_d w") auto
  then have "\<not> is_blank c"
    using printf_d_chars [of c w] by simp
  then show ?thesis
    by (simp add: p)
qed

subsection \<open>The lines that save_config writes, read by the loop body\<close>

lemma plain_line_line_of: "plain_line l \<Longrightarrow> line_of l = l"
  by (simp add: plain_line_def line_of_plain)

lemma field_name_plain:
  "CHR ''='' \<notin> set (field_name f) \<and> NUL \<notin> set (field_name f) \<and> NEWLINE \<notin> set (field_name f)
   \<and> dropWhile is_blank (field_name f) = field_name f \<and> length (field_name f) \<le> 21"
  by (cases f) (simp_all add: NUL_def NEWLINE_def is_blank_def TAB_def)

lemma plain_line_key_value:
  assumes "NEWLINE \<notin> set v" and "NUL \<notin> set v" and "length v \<le> 1001"
  shows "plain_line (field_name f @ CHR ''='' # v)"
  using assms field_name_plain [of f] by (simp add: plain_line_def NUL_def NEWLINE_def)

lemma loop_body_written_field:
  assumes "NEWLINE \<notin> set v" and "NUL \<notin> set v" and "length v \<le> 1001"
    and "dropWhile is_blank v = v"
  shows "loop_body (field_name f @ CHR ''='' # v) (section, c) = (section, store_field f v c)"
proof -
  let ?buf = "field_name f @ CHR ''='' # v"
  have p: "plain_line ?buf"
    using assms(1-3) by (rule plain_line_key_value)
  then have "length ?buf < MAX_LINE"
    by (simp add: plain_line_def MAX_LINE_def)
  moreover have "line_of ?buf = field_name f @ CHR ''='' # v"
    using p by (rule plain_line_line_of)
  moreover have "CHR ''='' \<notin> set (field_name f)"
    "dropWhile is_blank (field_name f) = field_name f"
    using field_name_plain [of f] by simp_all
  ultimately have "loop_body ?buf (section, c) = (section, store_field f (dropWhile is_blank v) c)"
    by (rule loop_body_field_line)
  then show ?thesis
    by (simp add: assms(4))
qed

lemma printf_d_value:
  "NEWLINE \<notin> set (printf_d w) \<and> NUL \<notin> set (printf_d w) \<and> length (printf_d w) \<le> 1001"
  using printf_d_chars [of _ w] printf_d_length [of w] by (auto simp: le_trans)

lemma loop_body_written_number:
  "loop_body (field_name f @ CHR ''='' # printf_d w) (section, c)
     = (section, store_field f (printf_d w) c)"
  using printf_d_value [of w] printf_d_not_blank [of w]
  by (intro loop_body_written_field) simp_all

lemma flag_text:
  "NEWLINE \<notin> set (if b then ''true'' else ''false'') \<and> NUL \<notin> set (if b then ''true'' else ''false'')
   \<and> length (if b then ''true'' else ''false'') \<le> 1001
   \<and> dropWhile is_blank (if b then ''true'' else ''false'') = (if b then ''true'' else ''false'')"
  by (simp add: NUL_def NEWLINE_def is_blank_def TAB_def)

lemma loop_body_written_flag:
  "loop_body (field_name Enable_notifications @ CHR ''='' # (if b then ''true'' else ''false''))
     (section, c) = (section, c\<lparr>enable_notifications := b\<rparr>)"
proof -
  have "loop_body (field_name Enable_notifications @ CHR ''='' # (if b then ''true'' else ''false''))
     (section, c) = (section, store_field Enable_notifications (if b then ''true'' else ''false'') c)"
    using flag_text [of b] by (intro loop_body_written_field) simp_all
  then show ?thesis
    by simp
qed

lemma networks_value_plain:
  assumes "networks_value h"
  shows "NEWLINE \<notin> set h \<and> NUL \<notin> set h \<and> length h \<le> 1001 + 8 \<and> dropWhile is_blank h = h"
  using assms by (cases h) (simp_all add: networks_value_def)

lemma loop_body_written_networks:
  assumes "networks_value h"
  shows "loop_body (field_name Home_networks @ CHR ''='' # h) (section, c)
     = (section, c\<lparr>home_networks := h\<rparr>)"
proof -
  let ?buf = "field_name Home_networks @ CHR ''='' # h"
  have h: "NEWLINE \<notin> set h" "NUL \<notin> set h" "length h \<le> 1009" "dropWhile is_blank h = h"
    using networks_value_plain [OF assms] by simp_all
  have p: "plain_line ?buf"
    using h by (simp add: plain_line_def NUL_def NEWLINE_def)
  then have "length ?buf < MAX_LINE"
    by (simp add: plain_line_def MAX_LINE_def)
  moreover have "line_of ?buf = field_name Home_networks @ CHR ''='' # h"
    using p by (rule plain_line_line_of)
  moreover have "CHR ''='' \<notin> set (field_name Home_networks)"
    "dropWhile is_blank (field_name Home_networks) = field_name Home_networks"
    using field_name_plain [of Home_networks] by simp_all
  ultimately have "loop_body ?buf (section, c)
      = (section, store_field Home_networks (dropWhile is_blank h) c)"
    by (rule loop_body_field_line)
  then show ?thesis
    by (simp add: h(4))
qed

lemma length_takeWhile_all: "length (takeWhile P xs) = length xs \<longleftrightarrow> (\<forall>x \<in> set xs. P x)"
  by (induction xs) auto

lemma device_line_plain: "device_line d \<Longrightarrow> plain_line d"
  by (simp add: device_line_def plain_line_def)

lemma loop_body_written_device:
  assumes "device_line d" and "nas_count c < MAX_NAS_DEVICES"
  shows "loop_body d (''nas_devices'', c)
     = (''nas_devices'',
        c\<lparr>nas_devices := (nas_devices c)[nat (nas_count c) := d], nas_count := nas_count c + 1\<rparr>)"
proof -
  have l: "line_of d = d"
    using assms(1) by (intro plain_line_line_of device_line_plain)
  have "\<not> is_blank CHR ''/''"
    by (simp add: is_blank_def TAB_def)
  then have "\<not> (\<forall>x \<in> set d. is_blank x)"
    using assms(1) by (auto simp: device_line_def)
  then have "length (takeWhile is_blank d) \<noteq> length d"
    by (simp add: length_takeWhile_all)
  then have "\<not> skip_line d"
    using assms(1) by (cases d) (simp_all add: skip_line_def device_line_def)
  then show ?thesis
    using assms l by (simp add: loop_body_def device_line_def strncpy_def MAX_LINE_def)
qed

lemma foldl_written_devices:
  assumes "list_all device_line ds" and "config_wf c"
    and "nas_count c + int (length ds) \<le> MAX_NAS_DEVICES"
  shows "\<exists>c'. foldl (\<lambda>st l. loop_body l st) (''nas_devices'', c) ds = (''nas_devices'', c')
       \<and> config_wf c' \<and> devices c' = devices c @ ds
       \<and> nas_count c' = nas_count c + int (length ds)
       \<and> c'\<lparr>nas_devices := nas_devices c, nas_count := nas_count c\<rparr> = c"
  using assms
proof (induction ds arbitrary: c)
  case Nil
  then show ?case by simp
next
  case (Cons d ds)
  let ?c1 = "c\<lparr>nas_devices := (nas_devices c)[nat (nas_count c) := d], nas_count := nas_count c + 1\<rparr>"
  have lt: "nas_count c < MAX_NAS_DEVICES"
    using Cons.prems(3) by simp
  have d: "device_line d" and ds: "list_all device_line ds"
    using Cons.prems(1) by simp_all
  have step: "loop_body d (''nas_devices'', c) = (''nas_devices'', ?c1)"
    using d lt by (rule loop_body_written_device)
  have wf1: "config_wf ?c1"
    using Cons.prems(2) lt by (rule config_wf_append_entry)
  have n1: "nas_count ?c1 + int (length ds) \<le> MAX_NAS_DEVICES"
    using Cons.prems(3) by simp
  obtain c' where c': "foldl (\<lambda>st l. loop_body l st) (''nas_devices'', ?c1) ds = (''nas_devices'', c')"
    "config_wf c'" "devices c' = devices ?c1 @ ds"
    "nas_count c' = nas_count ?c1 + int (length ds)"
    "c'\<lparr>nas_devices := nas_devices ?c1, nas_count := nas_count ?c1\<rparr> = ?c1"
    using Cons.IH [OF ds wf1 n1] by blast
  have "devices c' = devices c @ d # ds"
    using c'(3) devices_append_entry [OF Cons.prems(2) lt, of d] by simp
  moreover have "c'\<lparr>nas_devices := nas_devices c, nas_count := nas_count c\<rparr> = c"
  proof -
    have "(c'\<lparr>nas_devices := nas_devices ?c1, nas_count := nas_count ?c1\<rparr>)
            \<lparr>nas_devices := nas_devices c, nas_count := nas_count c\<rparr>
        = ?c1\<lparr>nas_devices := nas_devices c, nas_count := nas_count c\<rparr>"
      by (simp only: c'(5))
    then show ?thesis
      by simp
  qed
  ultimately show ?case
    using c'(1,2,4) step by simp
qed

subsection \<open>Loading the file that save_config wrote\<close>

lemma loop_body_comment: "loop_body (CHR ''#'' # r) st = st"
  by (intro loop_body_skip) (simp add: skip_line_def line_of_def c_str_def NUL_def NEWLINE_def)

lemma loop_body_empty: "loop_body [] st = st"
  by (intro loop_body_skip) (simp add: skip_line_def line_of_def c_str_def)

lemma loop_body_sections:
  "loop_body ''[networks]'' (section, c) = (''networks'', c)"
  "loop_body ''[nas_devices]'' (section, c) = (''nas_devices'', c)"
  "loop_body ''[intervals]'' (section, c) = (''intervals'', c)"
  "loop_body ''[behavior]'' (section, c) = (''behavior'', c)"
  by (simp_all add: loop_body_def line_of_def c_str_def skip_line_def section_header_def
      section_name_def strncpy_def NUL_def NEWLINE_def is_blank_def TAB_def)

lemma loop_body_written:
  "networks_value h \<Longrightarrow>
     loop_body (''home_networks='' @ h) (section, c) = (section, c\<lparr>home_networks := h\<rparr>)"
  "loop_body (''home_ac_interval='' @ printf_d w) (section, c)
     = (section, c\<lparr>home_ac_interval := w\<rparr>)"
  "loop_body (''home_battery_interval='' @ printf_d w) (section, c)
     = (section, c\<lparr>home_battery_interval := w\<rparr>)"
  "loop_body (''away_ac_interval='' @ printf_d w) (section, c)
     = (section, c\<lparr>away_ac_interval := w\<rparr>)"
  "loop_body (''away_battery_interval='' @ printf_d w) (section, c)
     = (section, c\<lparr>away_battery_interval := w\<rparr>)"
  "loop_body (''max_failed_attempts='' @ printf_d w) (section, c)
     = (section, c\<lparr>max_failed_attempts := w\<rparr>)"
  "loop_body (''min_battery_level='' @ printf_d w) (section, c)
     = (section, c\<lparr>min_battery_level := w\<rparr>)"
  "loop_body (''enable_notifications='' @ (if b then ''true'' else ''false'')) (section, c)
     = (section, c\<lparr>enable_notifications := b\<rparr>)"
  using loop_body_written_networks [of h "section" c]
    loop_body_written_number [of Home_ac_interval w "section" c]
    loop_body_written_number [of Home_battery_interval w "section" c]
    loop_body_written_number [of Away_ac_interval w "section" c]
    loop_body_written_number [of Away_battery_interval w "section" c]
    loop_body_written_number [of Max_failed_attempts w "section" c]
    loop_body_written_number [of Min_battery_level w "section" c]
    loop_body_written_flag [of b "section" c]
  by (simp_all add: atoi_printf_d)

lemma plain_line_written:
  "networks_value h \<Longrightarrow> plain_line (''home_networks='' @ h)"
  "plain_line (''home_ac_interval='' @ printf_d w)"
  "plain_line (''home_battery_interval='' @ printf_d w)"
  "plain_line (''away_ac_interval='' @ printf_d w)"
  "plain_line (''away_battery_interval='' @ printf_d w)"
  "plain_line (''max_failed_attempts='' @ printf_d w)"
  "plain_line (''min_battery_level='' @ printf_d w)"
  "plain_line (''enable_notifications='' @ (if b then ''true'' else ''false''))"
proof -
  show "plain_line (''home_networks='' @ h)" if "networks_value h"
    using networks_value_plain [OF that] by (simp add: plain_line_def NUL_def NEWLINE_def)
  show "plain_line (''home_ac_interval='' @ printf_d w)"
    using plain_line_key_value [of "printf_d w" Home_ac_interval] printf_d_value [of w] by simp
  show "plain_line (''home_battery_interval='' @ printf_d w)"
    using plain_line_key_value [of "printf_d w" Home_battery_interval] printf_d_value [of w] by simp
  show "plain_line (''away_ac_interval='' @ printf_d w)"
    using plain_line_key_value [of "printf_d w" Away_ac_interval] printf_d_value [of w] by simp
  show "plain_line (''away_battery_interval='' @ printf_d w)"
    using plain_line_key_value [of "printf_d w" Away_battery_interval] printf_d_value [of w] by simp
  show "plain_line (''max_failed_attempts='' @ printf_d w)"
    using plain_line_key_value [of "printf_d w" Max_failed_attempts] printf_d_value [of w] by simp
  show "plain_line (''min_battery_level='' @ printf_d w)"
    using plain_line_key_value [of "printf_d w" Min_battery_level] printf_d_value [of w] by simp
  show "plain_line (''enable_notifications='' @ (if b then ''true'' else ''false''))"
    using plain_line_key_value [of "if b then ''true'' else ''false''" Enable_notifications]
      flag_text [of b] by simp
qed

lemma plain_line_fixed:
  "plain_line ''# NAS Monitor Configuration File''"
  "plain_line []"
  "plain_line ''[networks]''"
  "plain_line ''# Comma-separated list of home network SSIDs''"
  "plain_line ''[nas_devices]''"
  "plain_line ''# Format: host/share (one per line)''"
  "plain_line ''[intervals]''"
  "plain_line ''# Check intervals in seconds''"
  "plain_line ''[behavior]''"
  by (simp_all add: plain_line_def NUL_def NEWLINE_def)

lemma spec_layout_plain:
  assumes "roundtrip_safe c"
  shows "list_all plain_line (spec_layout c)"
proof -
  have "list_all plain_line (devices c)"
    using assms by (auto simp: roundtrip_safe_def list_all_iff device_line_plain)
  moreover have "networks_value (home_networks c)"
    using assms by (simp add: roundtrip_safe_def)
  ultimately show ?thesis
    unfolding spec_layout_def
    by (simp only: list_all_append list.pred_inject plain_line_written plain_line_fixed simp_thms)
qed

lemma foldl_spec_layout:
  assumes "roundtrip_safe c" and "config_wf d" and "nas_count d = 0"
  shows "\<exists>c'. foldl (\<lambda>st l. loop_body l st) ([], d) (spec_layout c) = (''behavior'', c')
       \<and> config_wf c' \<and> config_path c' = config_path d
       \<and> home_networks c' = home_networks c
       \<and> devices c' = devices c \<and> nas_count c' = nas_count c
       \<and> home_ac_interval c' = home_ac_interval c
       \<and> home_battery_interval c' = home_battery_interval c
       \<and> away_ac_interval c' = away_ac_interval c
       \<and> away_battery_interval c' = away_battery_interval c
       \<and> max_failed_attempts c' = max_failed_attempts c
       \<and> min_battery_level c' = min_battery_level c
       \<and> enable_notifications c' = enable_notifications c"
proof -
  let ?body = "\<lambda>st l. loop_body l st"
  let ?d1 = "d\<lparr>home_networks := home_networks c\<rparr>"
  have nv: "networks_value (home_networks c)" and dl: "list_all device_line (devices c)"
    and wf: "config_wf c"
    using assms(1) by (simp_all add: roundtrip_safe_def)
  have len: "int (length (devices c)) = nas_count c"
    using wf by (auto simp: devices_def config_wf_def)
  have head: "foldl ?body ([], d)
       [''# NAS Monitor Configuration File'', [], ''[networks]'',
        ''# Comma-separated list of home network SSIDs'',
        ''home_networks='' @ home_networks c, [], ''[nas_devices]'',
        ''# Format: host/share (one per line)'']
      = (''nas_devices'', ?d1)"
    by (simp only: foldl_Cons foldl_Nil loop_body_comment loop_body_empty loop_body_sections
        loop_body_written(1) [OF nv])
  have wf1: "config_wf ?d1" and n1: "nas_count ?d1 + int (length (devices c)) \<le> MAX_NAS_DEVICES"
    using assms(2,3) wf len by (simp_all add: config_wf_def)
  obtain c1 where c1: "foldl ?body (''nas_devices'', ?d1) (devices c) = (''nas_devices'', c1)"
    "config_wf c1" "devices c1 = devices ?d1 @ devices c"
    "nas_count c1 = nas_count ?d1 + int (length (devices c))"
    "c1\<lparr>nas_devices := nas_devices ?d1, nas_count := nas_count ?d1\<rparr> = ?d1"
    using foldl_written_devices [OF dl wf1 n1] by blast
  let ?c' = "c1\<lparr>home_ac_interval := home_ac_interval c,
      home_battery_interval := home_battery_interval c,
      away_ac_interval := away_ac_interval c,
      away_battery_interval := away_battery_interval c,
      max_failed_attempts := max_failed_attempts c,
      min_battery_level := min_battery_level c,
      enable_notifications := enable_notifications c\<rparr>"
  have tail: "foldl ?body (''nas_devices'', c1)
       [[], ''[intervals]'', ''# Check intervals in seconds'',
        ''home_ac_interval='' @ printf_d (home_ac_interval c),
        ''home_battery_interval='' @ printf_d (home_battery_interval c),
        ''away_ac_interval='' @ printf_d (away_ac_interval c),
        ''away_battery_interval='' @ printf_d (away_battery_interval c),
        [], ''[behavior]'',
        ''max_failed_attempts='' @ printf_d (max_failed_attempts c),
        ''min_battery_level='' @ printf_d (min_battery_level c),
        ''enable_notifications='' @ (if enable_notifications c then ''true'' else ''false'')]
      = (''behavior'', ?c')"
    by (simp only: foldl_Cons foldl_Nil loop_body_comment loop_body_empty loop_body_sections
        loop_body_written)
  have all: "foldl ?body ([], d) (spec_layout c) = (''behavior'', ?c')"
    unfolding spec_layout_def foldl_append head c1(1) tail ..
  have "home_networks (c1\<lparr>nas_devices := nas_devices ?d1, nas_count := nas_count ?d1\<rparr>)
      = home_networks ?d1"
    "config_path (c1\<lparr>nas_devices := nas_devices ?d1, nas_count := nas_count ?d1\<rparr>)
      = config_path ?d1"
    by (simp_all only: c1(5))
  then have hn: "home_networks c1 = home_networks c" and cp: "config_path c1 = config_path d"
    by simp_all
  have dv: "devices ?c' = devices c"
    using c1(3) assms(3) by (simp add: devices_def)
  have nc: "nas_count ?c' = nas_count c"
    using c1(4) assms(3) len by simp
  have wf': "config_wf ?c'"
    using c1(2) by (simp add: config_wf_def)
  show ?thesis
    using all wf' hn cp dv nc by (intro exI [of _ ?c']) simp
qed

lemma spec_layout_cong:
  assumes "home_networks c' = home_networks c" and "devices c' = devices c"
    and "home_ac_interval c' = home_ac_interval c"
    and "home_battery_interval c' = home_battery_interval c"
    and "away_ac_interval c' = away_ac_interval c"
    and "away_battery_interval c' = away_battery_interval c"
    and "max_failed_attempts c' = max_failed_attempts c"
    and "min_battery_level c' = min_battery_level c"
    and "enable_notifications c' = enable_notifications c"
  shows "spec_layout c' = spec_layout c"
  unfolding spec_layout_def by (simp only: assms)

text \<open>
  Claim C1, as amended. Let the Settings hold at most ten devices, each a string with a
  \<^verbatim>\<open>'/'\<close>, without \<^verbatim>\<open>'='\<close> and without a newline, that does not start with \<^verbatim>\<open>'#'\<close> and is
  not bracketed; and let the network list have at most 1009 bytes, no newline, and not
  start with a space or a tab. Then saving, and loading the saved file on a new start,
  succeeds and gives back every field value and the devices in the same order; saving
  what was loaded writes the same file again.
\<close>

theorem save_load_roundtrip:
  assumes "roundtrip_safe c" and "writable fs (config_path c)"
    and "config_wf c0" and "config_path c0 = config_path c"
  shows "fst (load_config (snd (save_config fs c)) c0) = True
       \<and> home_networks (save_then_load fs c c0) = home_networks c
       \<and> devices (save_then_load fs c c0) = devices c
       \<and> nas_count (save_then_load fs c c0) = nas_count c
       \<and> home_ac_interval (save_then_load fs c c0) = home_ac_interval c
       \<and> home_battery_interval (save_then_load fs c c0) = home_battery_interval c
       \<and> away_ac_interval (save_then_load fs c c0) = away_ac_interval c
       \<and> away_battery_interval (save_then_load fs c c0) = away_battery_interval c
       \<and> max_failed_attempts (save_then_load fs c c0) = max_failed_attempts c
       \<and> min_battery_level (save_then_load fs c c0) = min_battery_level c
       \<and> enable_notifications (save_then_load fs c c0) = enable_notifications c
       \<and> files (snd (save_config (snd (save_config fs c)) (save_then_load fs c c0))) (config_path c)
           = files (snd (save_config fs c)) (config_path c)"
proof -
  let ?fs' = "snd (save_config fs c)"
  let ?d = "set_defaults c0"
  have wf: "config_wf c"
    using assms(1) by (simp add: roundtrip_safe_def)
  have saved: "files ?fs' (config_path c0) = Some (unlines (spec_layout c))"
    using assms(2,4) wf by (simp add: save_config_def write_config_layout)
  have wr: "writable ?fs' (config_path c)"
    using assms(2) by (simp add: save_config_def)
  have d: "config_wf ?d" "nas_count ?d = 0" "config_path ?d = config_path c"
    using assms(3,4) by (simp_all add: set_defaults_def config_wf_def MAX_NAS_DEVICES_def)
  have "\<forall>l \<in> set (spec_layout c). NEWLINE \<notin> set l \<and> NUL \<notin> set l \<and> length l \<le> 1023"
    using spec_layout_plain [OF assms(1)] by (simp add: list_all_iff plain_line_def)
  then have loop: "load_loop (unlines (spec_layout c)) ([], ?d)
      = foldl (\<lambda>st l. loop_body l st) ([], ?d) (spec_layout c)"
    by (rule load_loop_unlines)
  obtain c' where c': "foldl (\<lambda>st l. loop_body l st) ([], ?d) (spec_layout c) = (''behavior'', c')"
    "config_wf c'" "config_path c' = config_path ?d"
    "home_networks c' = home_networks c"
    "devices c' = devices c" "nas_count c' = nas_count c"
    "home_ac_interval c' = home_ac_interval c"
    "home_battery_interval c' = home_battery_interval c"
    "away_ac_interval c' = away_ac_interval c"
    "away_battery_interval c' = away_battery_interval c"
    "max_failed_attempts c' = max_failed_attempts c"
    "min_battery_level c' = min_battery_level c"
    "enable_notifications c' = enable_notifications c"
    using foldl_spec_layout [OF assms(1) d(1,2)] by blast
  have ld: "load_config ?fs' c0 = (True, c')"
    by (simp add: load_config_def saved loop c'(1))
  then have stl: "save_then_load fs c c0 = c'"
    by (simp add: save_then_load_def)
  have "spec_layout c' = spec_layout c"
    using c'(4,5,7-13) by (rule spec_layout_cong)
  then have "write_config c' = unlines (spec_layout c)"
    using c'(2) by (simp add: write_config_layout)
  then have again: "files (snd (save_config ?fs' c')) (config_path c) = files ?fs' (config_path c)"
    using wr saved assms(4) c'(3) d(3) by (simp add: save_config_def)
  show ?thesis
    unfolding stl using ld c'(4-13) again by simp
qed

lemma edited_config_safe: "roundtrip_safe edited_config"
  by code_simp

theorem save_load_roundtrip_witness:
  "roundtrip_safe edited_config \<and> writable empty_fs (config_path edited_config)
   \<and> config_wf (zero_config example_path)
   \<and> config_path (zero_config example_path) = config_path edited_config
   \<and> fst (load_config (snd (save_config empty_fs edited_config)) (zero_config example_path)) = True
   \<and> home_networks (save_then_load empty_fs edited_config (zero_config example_path)) = ''Home,Office''
   \<and> devices (save_then_load empty_fs edited_config (zero_config example_path))
       = [''nas1.local/media'', ''nas2.local/photos'', ''backup/home'']
   \<and> home_ac_interval (save_then_load empty_fs edited_config (zero_config example_path)) = 20
   \<and> away_battery_interval (save_then_load empty_fs edited_config (zero_config example_path)) = - 1
   \<and> enable_notifications (save_then_load empty_fs edited_config (zero_config example_path)) = False"
proof -
  have h2: "writable empty_fs (config_path edited_config)"
    by (simp add: empty_fs_def)
  have h3: "config_wf (zero_config example_path)"
    by (simp add: zero_config_def config_wf_def MAX_NAS_DEVICES_def)
  have h4: "config_path (zero_config example_path) = config_path edited_config"
    by (simp add: zero_config_def edited_config_def three_devices_eq fresh_config_eq
        set_defaults_def)
  have v: "home_networks edited_config = ''Home,Office''"
    "devices edited_config = [''nas1.local/media'', ''nas2.local/photos'', ''backup/home'']"
    "home_ac_interval edited_config = 20" "away_battery_interval edited_config = - 1"
    "enable_notifications edited_config = False"
    using three_devices_devices by (simp_all add: edited_config_def devices_def)
  show ?thesis
    using edited_config_safe h2 h3 h4 save_load_roundtrip [OF edited_config_safe h2 h3 h4]
    unfolding v by simp
qed

text \<open>
  Claim C1 as it is stated fails. A device with \<^verbatim>\<open>'='\<close> in it, added through
  \<open>on_add_nas_clicked\<close>, satisfies the invariant of the device list; it is written as
  a line, read as a key/value line with a key that names no field, and lost. A network
  list that starts with a space comes back without the space.
\<close>

theorem roundtrip_loses_settings:
  "devices_valid equals_device
   \<and> devices equals_device = [''nas.local/share=1'']
   \<and> devices (save_then_load empty_fs equals_device (zero_config example_path)) = []
   \<and> devices_valid blank_networks
   \<and> home_networks blank_networks = '' Home,Office''
   \<and> home_networks (save_then_load empty_fs blank_networks (zero_config example_path))
       = ''Home,Office''"
  by code_simp

text \<open>
  The other conditions are needed as well: a device that starts with \<^verbatim>\<open>'#'\<close> is read as a
  comment, a bracketed device is read as a section header, and of a network list of 1010
  bytes the first 1009 are read.
\<close>

lemma roundtrip_other_losses:
  "devices hash_device = [''#1.local/media'']
   \<and> devices (save_then_load empty_fs hash_device (zero_config example_path)) = []
   \<and> devices bracket_device = [''[fe80::1]/[media]'']
   \<and> devices (save_then_load empty_fs bracket_device (zero_config example_path)) = []
   \<and> home_networks (save_then_load empty_fs long_networks (zero_config example_path))
       = replicate 1009 CHR ''a''"
  by code_simp

subsection \<open>Files whose lines fit the buffer\<close>

lemma fgets_chars_short:
  "NEWLINE \<notin> set l \<Longrightarrow> length l \<le> k \<Longrightarrow> fgets_chars k l = (l, [])"
proof (induction l arbitrary: k)
  case Nil
  then show ?case by simp
next
  case (Cons a l)
  from Cons.prems have "length l \<le> k - 1" and "a \<noteq> NEWLINE" and "k \<noteq> 0"
    by auto
  with Cons.IH [of "k - 1"] Cons.prems(1) show ?case
    by simp
qed

lemma line_of_with_newline:
  assumes "NEWLINE \<notin> set l"
  shows "line_of (l @ [NEWLINE]) = line_of l"
proof (cases "NUL \<in> set l")
  case True
  then have "c_str (l @ [NEWLINE]) = c_str l"
    unfolding c_str_def by (intro takeWhile_append1 [of NUL]) simp_all
  then show ?thesis
    by (simp add: line_of_def)
next
  case False
  then show ?thesis
    using assms by (simp add: line_of_newline line_of_plain)
qed

text \<open>
  A line of at most 1023 bytes is handled in one run of the loop body, whether it is
  followed by a newline or by the end of the file.
\<close>

lemma load_loop_text_line:
  assumes "NEWLINE \<notin> set l" and "length l \<le> 1023"
  shows "load_loop (l @ NEWLINE # rest) st = load_loop rest (loop_body l st)"
proof (cases "length l < 1023")
  case True
  have "fgets MAX_LINE (l @ NEWLINE # rest) = Some (l @ [NEWLINE], rest)"
    using fgets_chars_line [OF assms(1), of 1023 rest] True
    by (simp add: fgets_def MAX_LINE_def)
  then have "load_loop (l @ NEWLINE # rest) st = load_loop rest (loop_body (l @ [NEWLINE]) st)"
    by (subst load_loop.simps) simp
  then show ?thesis
    using line_of_with_newline [OF assms(1)]
    by (simp add: loop_body_same_line [of "l @ [NEWLINE]" l])
next
  case False
  with assms(2) have len: "length l = 1023"
    by simp
  have ne: "l \<noteq> []"
    using len by auto
  have "fgets MAX_LINE (l @ NEWLINE # rest) = Some (l, NEWLINE # rest)"
    using fgets_chars_full [OF assms(1) len, of "NEWLINE # rest"] ne
    by (simp add: fgets_def MAX_LINE_def)
  then have 1: "load_loop (l @ NEWLINE # rest) st = load_loop (NEWLINE # rest) (loop_body l st)"
    by (subst load_loop.simps) simp
  have "fgets MAX_LINE (NEWLINE # rest) = Some ([NEWLINE], rest)"
    by (simp add: fgets_def MAX_LINE_def)
  then have 2: "load_loop (NEWLINE # rest) st' = load_loop rest (loop_body [NEWLINE] st')" for st'
    by (subst load_loop.simps) simp
  have "line_of [NEWLINE] = []"
    by (simp add: line_of_def c_str_def NUL_def NEWLINE_def)
  then have 3: "loop_body [NEWLINE] st' = st'" for st'
    by (intro loop_body_skip) (simp add: skip_line_def)
  show ?thesis
    unfolding 1 2 3 ..
qed

lemma load_loop_last_line:
  assumes "NEWLINE \<notin> set l" and "length l \<le> 1023" and "l \<noteq> []"
  shows "load_loop l st = loop_body l st"
proof -
  have "fgets MAX_LINE l = Some (l, [])"
    using fgets_chars_short [OF assms(1), of 1023] assms(2,3)
    by (simp add: fgets_def MAX_LINE_def)
  then show ?thesis
    by (subst load_loop.simps) (simp add: load_loop_Nil)
qed

lemma file_lines_Nil: "file_lines [] = []"
  by (subst file_lines.simps) simp

lemma file_lines_newline:
  assumes "NEWLINE \<notin> set l"
  shows "file_lines (l @ NEWLINE # rest) = l # file_lines rest"
proof -
  have "takeWhile (\<lambda>c. c \<noteq> NEWLINE) (l @ NEWLINE # rest)
      = l @ takeWhile (\<lambda>c. c \<noteq> NEWLINE) (NEWLINE # rest)"
    using assms by (intro takeWhile_append2) auto
  then have "takeWhile (\<lambda>c. c \<noteq> NEWLINE) (l @ NEWLINE # rest) = l"
    by simp
  moreover have "dropWhile (\<lambda>c. c \<noteq> NEWLINE) (l @ NEWLINE # rest)
      = dropWhile (\<lambda>c. c \<noteq> NEWLINE) (NEWLINE # rest)"
    using assms by (intro dropWhile_append2) auto
  then have "dropWhile (\<lambda>c. c \<noteq> NEWLINE) (l @ NEWLINE # rest) = NEWLINE # rest"
    by simp
  ultimately show ?thesis
    by (subst file_lines.simps) simp
qed

lemma file_lines_last:
  assumes "NEWLINE \<notin> set l" and "l \<noteq> []"
  shows "file_lines l = [l]"
proof -
  have tw: "takeWhile (\<lambda>c. c \<noteq> NEWLINE) l = l" and dw: "dropWhile (\<lambda>c. c \<noteq> NEWLINE) l = []"
    using assms(1) by (auto simp: takeWhile_eq_all_conv)
  have "file_lines l = takeWhile (\<lambda>c. c \<noteq> NEWLINE) l
      # file_lines (tl (dropWhile (\<lambda>c. c \<noteq> NEWLINE) l))"
    using assms(2) by (subst file_lines.simps) simp
  then show ?thesis
    unfolding tw dw by (simp add: file_lines_Nil)
qed

lemma split_at_newline:
  obtains (last) "NEWLINE \<notin> set content"
  | (line) l rest where "content = l @ NEWLINE # rest" and "NEWLINE \<notin> set l"
proof (cases "NEWLINE \<in> set content")
  case False
  then show ?thesis by (rule last)
next
  case True
  then obtain l rest where "content = l @ NEWLINE # rest" and "NEWLINE \<notin> set l"
    by (auto dest: split_list_first)
  then show ?thesis by (rule line)
qed

text \<open>
  On a file whose lines have at most 1023 bytes, \<open>load_loop\<close> runs the loop body once on
  each line of the file, in file order.
\<close>

lemma load_loop_file_lines:
  "short_lines content \<Longrightarrow>
   load_loop content st = foldl (\<lambda>st l. loop_body l st) st (file_lines content)"
proof (induction "length content" arbitrary: content st rule: less_induct)
  case less
  show ?case
  proof (cases content rule: split_at_newline)
    case last
    show ?thesis
    proof (cases "content = []")
      case True
      then show ?thesis
        by (simp add: load_loop_Nil file_lines_Nil)
    next
      case False
      have fl: "file_lines content = [content]"
        using last False by (rule file_lines_last)
      then have "length content \<le> 1023"
        using less.prems by (simp add: short_lines_def)
      then show ?thesis
        using load_loop_last_line [OF last _ False] fl by simp
    qed
  next
    case (line l rest)
    have fl: "file_lines content = l # file_lines rest"
      unfolding line(1) using line(2) by (rule file_lines_newline)
    then have len: "length l \<le> 1023" and sr: "short_lines rest"
      using less.prems by (simp_all add: short_lines_def)
    have "load_loop content st = load_loop rest (loop_body l st)"
      unfolding line(1) using line(2) len by (rule load_loop_text_line)
    also have "\<dots> = foldl (\<lambda>st l. loop_body l st) (loop_body l st) (file_lines rest)"
      using less.hyps [of rest "loop_body l st"] sr line(1) by simp
    finally show ?thesis
      by (simp add: fl)
  qed
qed

lemma load_config_file_lines:
  assumes "files fs (config_path c0) = Some content" and "short_lines content"
  shows "load_config fs c0 = (True, snd (lines_state c0 (file_lines content)))"
  using assms by (simp add: load_config_def lines_state_def load_loop_file_lines)

lemma lines_state_split:
  "lines_state c0 (before @ l # after)
     = foldl (\<lambda>st l. loop_body l st) (loop_body l (lines_state c0 before)) after"
  by (simp add: lines_state_def)

lemma short_lines_length:
  assumes "short_lines content" and "file_lines content = before @ l # after"
  shows "length l < MAX_LINE"
  using assms by (simp add: short_lines_def MAX_LINE_def)

lemma sets_fieldI:
  assumes "line_of buf = k @ CHR ''='' # v" and "CHR ''='' \<notin> set k"
    and "dropWhile is_blank k = field_name f"
  shows "sets_field f buf" and "value_of (line_of buf) = dropWhile is_blank v"
proof -
  have "key_value_line buf"
    using assms(1,3,2) by (rule key_value_lineI)
  then show "sets_field f buf"
    using assms by (simp add: sets_field_def key_of_split)
  show "value_of (line_of buf) = dropWhile is_blank v"
    using assms(1,2) by (simp add: value_of_split)
qed

lemma field_value_foldl_unset:
  assumes "list_all (\<lambda>b. \<not> sets_field f b) bufs"
  shows "field_value f (snd (foldl (\<lambda>st buf. loop_body buf st) st bufs)) = field_value f (snd st)"
  using assms by (intro field_value_foldl_other) (simp add: list_all_iff sets_field_def)

text \<open>
  After a line that sets a field, and after which no line sets it again, the field holds
  the coerced value of that line.
\<close>

lemma field_value_last_line:
  assumes "files fs (config_path c0) = Some content" and "short_lines content"
    and "file_lines content = before @ l # after"
    and "sets_field f l" and "list_all (\<lambda>b. \<not> sets_field f b) after"
  shows "field_value f (snd (load_config fs c0)) = coerce f (value_of (line_of l))"
proof -
  let ?st = "lines_state c0 before"
  have len: "length l < MAX_LINE"
    using assms(2,3) by (rule short_lines_length)
  have kv: "key_value_line l" "key_of (line_of l) = field_name f"
    using assms(4) by (simp_all add: sets_field_def)
  have "snd (load_config fs c0)
      = snd (foldl (\<lambda>st l. loop_body l st) (loop_body l ?st) after)"
    using assms(1,2) by (simp add: load_config_file_lines assms(3) lines_state_split)
  then have "field_value f (snd (load_config fs c0)) = field_value f (snd (loop_body l ?st))"
    using field_value_foldl_unset [OF assms(5)] by simp
  also have "\<dots> = coerce f (value_of (line_of l))"
    using loop_body_store_field [OF kv(1) len kv(2), of "fst ?st" "snd ?st"]
    by (simp add: field_value_store_field)
  finally show ?thesis .
qed

subsection \<open>A line more or less in the file\<close>









subsection \<open>Devices are only added\<close>




subsection \<open>The last line that sets a field\<close>

text \<open>
  Claim C9, as amended. On a config file whose lines have at most 1023 bytes,
  \<open>load_config\<close> runs the loop body on the lines of the file in file order. So when a key
  that names a field stands on several key/value lines, the field holds, after the load,
  the coerced value of the last of them: of the line \<open>l\<close> after which no line sets the
  field.
\<close>

theorem load_config_last_line:
  assumes "files fs (config_path c0) = Some content" and "short_lines content"
    and "file_lines content = before @ l # after"
    and "sets_field f l" and "list_all (\<lambda>b. \<not> sets_field f b) after"
  shows "snd (load_config fs c0) = snd (lines_state c0 (file_lines content))
       \<and> field_value f (snd (load_config fs c0)) = coerce f (value_of (line_of l))"
  using assms(1,2) field_value_last_line [OF assms]
  by (simp add: load_config_file_lines)

theorem load_config_last_line_witness:
  "files (file_fs (unlines [''home_ac_interval=5'', ''home_ac_interval=7'', ''away_ac_interval=9'']))
     (config_path (zero_config example_path))
     = Some (unlines [''home_ac_interval=5'', ''home_ac_interval=7'', ''away_ac_interval=9''])
   \<and> short_lines (unlines [''home_ac_interval=5'', ''home_ac_interval=7'', ''away_ac_interval=9''])
   \<and> file_lines (unlines [''home_ac_interval=5'', ''home_ac_interval=7'', ''away_ac_interval=9''])
       = [''home_ac_interval=5''] @ ''home_ac_interval=7'' # [''away_ac_interval=9'']
   \<and> sets_field Home_ac_interval ''home_ac_interval=5''
   \<and> sets_field Home_ac_interval ''home_ac_interval=7''
   \<and> list_all (\<lambda>b. \<not> sets_field Home_ac_interval b) [''away_ac_interval=9'']
   \<and> field_value Home_ac_interval
        (snd (load_config
          (file_fs (unlines [''home_ac_interval=5'', ''home_ac_interval=7'', ''away_ac_interval=9'']))
          (zero_config example_path)))
       = Number 7"
proof -
  have h1: "files (file_fs (unlines [''home_ac_interval=5'', ''home_ac_interval=7'', ''away_ac_interval=9'']))
     (config_path (zero_config example_path))
     = Some (unlines [''home_ac_interval=5'', ''home_ac_interval=7'', ''away_ac_interval=9''])"
    by (simp add: file_fs_def zero_config_def)
  have h2: "short_lines (unlines [''home_ac_interval=5'', ''home_ac_interval=7'', ''away_ac_interval=9''])"
    by code_simp
  have h3: "file_lines (unlines [''home_ac_interval=5'', ''home_ac_interval=7'', ''away_ac_interval=9''])
       = [''home_ac_interval=5''] @ ''home_ac_interval=7'' # [''away_ac_interval=9'']"
    by code_simp
  have h0: "sets_field Home_ac_interval ''home_ac_interval=5''"
    by code_simp
  have h4: "sets_field Home_ac_interval ''home_ac_interval=7''"
    by code_simp
  have h5: "list_all (\<lambda>b. \<not> sets_field Home_ac_interval b) [''away_ac_interval=9'']"
    by code_simp
  have v: "coerce Home_ac_interval (value_of (line_of ''home_ac_interval=7'')) = Number 7"
    by code_simp
  show ?thesis
    using h1 h2 h3 h0 h4 h5 load_config_last_line [OF h1 h2 h3 h4 h5] unfolding v
    by blast
qed

subsection \<open>Lines of more than 1023 bytes\<close>

text \<open>Of a longer line, \<^verbatim>\<open>fgets\<close> returns the first 1023 bytes and leaves the rest for later.\<close>

lemma load_loop_cut:
  assumes "NEWLINE \<notin> set a" and "length a = 1023"
  shows "load_loop (a @ r) st = load_loop r (loop_body a st)"
proof -
  have "a \<noteq> []"
    using assms(2) by auto
  then have "fgets MAX_LINE (a @ r) = Some (a, r)"
    using fgets_chars_full [OF assms, of r] by (simp add: fgets_def MAX_LINE_def)
  then show ?thesis
    by (subst load_loop.simps) simp
qed

lemma load_loop_one_line:
  assumes "NEWLINE \<notin> set l" and "length l \<le> 1023"
  shows "load_loop (l @ [NEWLINE]) st = loop_body l st"
  using load_loop_text_line [OF assms, of "[]" st] by (simp add: load_loop_Nil)

lemma replicate_plain:
  "c \<noteq> x \<Longrightarrow> c \<notin> set (replicate n x)"
  by simp

lemma atoi_Nil: "atoi [] = 0"
  by (simp add: atoi_def strtol_def)

lemma cut_head_facts:
  "NEWLINE \<notin> set cut_head" "NUL \<notin> set cut_head" "length cut_head = 1023"
  unfolding cut_head_def
  by (simp_all only: set_append length_append length_replicate Un_iff)
    (simp_all add: NEWLINE_def NUL_def)

lemma cut_line_facts:
  "NEWLINE \<notin> set cut_line" "NUL \<notin> set cut_line"
  using cut_head_facts by (simp_all add: cut_line_def NEWLINE_def NUL_def)

lemma cut_line_split:
  "line_of cut_line = ''home_ac_interval'' @ CHR ''='' # (replicate 1006 CHR '' '' @ ''7'')"
  using cut_line_facts by (simp add: line_of_plain) (simp add: cut_line_def cut_head_def)

lemma cut_head_split:
  "line_of cut_head = ''home_ac_interval'' @ CHR ''='' # replicate 1006 CHR '' ''"
  using cut_head_facts by (simp add: line_of_plain) (simp add: cut_head_def)

lemma home_ac_interval_key:
  "CHR ''='' \<notin> set ''home_ac_interval''"
  "dropWhile is_blank ''home_ac_interval'' = field_name Home_ac_interval"
  by (simp_all add: is_blank_def TAB_def)

lemma cut_head_body: "loop_body cut_head (s, c) = (s, c\<lparr>home_ac_interval := 0\<rparr>)"
proof -
  have "length cut_head < MAX_LINE"
    using cut_head_facts(3) by (simp add: MAX_LINE_def)
  then have "loop_body cut_head (s, c)
      = (s, store_field Home_ac_interval (dropWhile is_blank (replicate 1006 CHR '' '')) c)"
    using cut_head_split home_ac_interval_key by (rule loop_body_field_line)
  moreover have "dropWhile is_blank (replicate 1006 CHR '' '') = []"
    by (simp only: dropWhile_replicate) (simp add: is_blank_def)
  ultimately show ?thesis
    by (simp add: atoi_Nil)
qed

lemma bare_line_dropped:
  assumes "CHR ''='' \<notin> set (line_of b)" and "s \<noteq> ''nas_devices''"
  shows "loop_body b (s, c) = (s, c) \<or> skip_line (line_of b) \<or> section_header (line_of b)"
  using assms by (simp add: loop_body_def Let_def)

lemma cut_file_load:
  "field_value Home_ac_interval
     (snd (load_config (file_fs cut_file) (zero_config example_path))) = Number 0"
proof -
  let ?st = "([], set_defaults (zero_config example_path))"
  have "key_value_line ''home_ac_interval=5''"
    by code_simp
  then obtain c1 where st1: "loop_body ''home_ac_interval=5'' ?st = ([], c1)"
    by (simp add: loop_body_key_value)
  have "load_loop cut_file ?st = load_loop (cut_line @ [NEWLINE]) ([], c1)"
    unfolding cut_file_def st1 [symmetric]
    by (intro load_loop_text_line) (simp_all add: NEWLINE_def)
  also have "\<dots> = load_loop (''7'' @ [NEWLINE]) (loop_body cut_head ([], c1))"
    unfolding cut_line_def append_assoc
    using cut_head_facts(1,3) by (rule load_loop_cut)
  also have "\<dots> = loop_body ''7'' ([], c1\<lparr>home_ac_interval := 0\<rparr>)"
    unfolding cut_head_body by (intro load_loop_one_line) (simp_all add: NEWLINE_def)
  also have "\<dots> = ([], c1\<lparr>home_ac_interval := 0\<rparr>)"
    by (simp add: loop_body_def Let_def line_of_def c_str_def skip_line_def section_header_def
        NUL_def NEWLINE_def is_blank_def TAB_def)
  finally show ?thesis
    by (simp add: load_config_def file_fs_def zero_config_def)
qed

text \<open>
  Claim C9 as it is stated fails on a file with a line of more than 1023 bytes. In
  \<open>cut_file\<close> both lines set \<^verbatim>\<open>home_ac_interval\<close>, and the value of the last one is 7. The
  last line is read in two pieces: the first 1023 bytes end with the spaces in front of
  the value and set the field to 0, and the piece that holds the 7 has no \<^verbatim>\<open>'='\<close>.
\<close>

theorem long_line_last_occurrence:
  "file_lines cut_file = [''home_ac_interval=5'', cut_line]
   \<and> sets_field Home_ac_interval ''home_ac_interval=5''
   \<and> sets_field Home_ac_interval cut_line
   \<and> coerce Home_ac_interval (value_of (line_of cut_line)) = Number 7
   \<and> field_value Home_ac_interval
        (snd (load_config (file_fs cut_file) (zero_config example_path))) = Number 0"
proof -
  have "file_lines (cut_line @ [NEWLINE]) = [cut_line]"
    using file_lines_newline [OF cut_line_facts(1), of "[]"] by (simp add: file_lines_Nil)
  then have 1: "file_lines cut_file = [''home_ac_interval=5'', cut_line]"
    unfolding cut_file_def
    using file_lines_newline [of "''home_ac_interval=5''" "cut_line @ [NEWLINE]"]
    by (simp add: NEWLINE_def)
  have 2: "sets_field Home_ac_interval ''home_ac_interval=5''"
    by code_simp
  have 3: "sets_field Home_ac_interval cut_line"
    using cut_line_split home_ac_interval_key by (rule sets_fieldI)
  have "value_of (line_of cut_line) = dropWhile is_blank (replicate 1006 CHR '' '' @ ''7'')"
    using cut_line_split home_ac_interval_key by (rule sets_fieldI)
  also have "\<dots> = ''7''"
    by (intro dropWhile_blank_prefix) (simp_all add: is_blank_def TAB_def)
  finally have "value_of (line_of cut_line) = ''7''" .
  moreover have "atoi ''7'' = 7"
    by code_simp
  ultimately have 4: "coerce Home_ac_interval (value_of (line_of cut_line)) = Number 7"
    by simp
  show ?thesis
    using 1 2 3 4 cut_file_load by blast
qed










subsection \<open>Trailing spaces and tabs, in a file\<close>





subsection \<open>Values that are not numbers or not the token true, in a file\<close>




text \<open>
  The bound on the lines is needed. The one line of \<open>spaced_file\<close> sets
  \<^verbatim>\<open>home_ac_interval\<close> to a value that holds no number, behind 1010 spaces. The first 1023
  bytes of the line end inside the key and contain no \<^verbatim>\<open>'='\<close>, and the rest of the line
  has the key \<^verbatim>\<open>val\<close>: the field keeps its default, 15.
\<close>

lemma spaced_head_facts:
  "NEWLINE \<notin> set spaced_head" "NUL \<notin> set spaced_head" "length spaced_head = 1023"
  "CHR ''='' \<notin> set spaced_head" "CHR ''h'' \<in> set spaced_head"
  unfolding spaced_head_def
  by (simp_all only: set_append length_append length_replicate Un_iff)
    (simp_all add: NEWLINE_def NUL_def)

lemma spaced_line_facts:
  "NEWLINE \<notin> set spaced_line" "NUL \<notin> set spaced_line"
  using spaced_head_facts by (simp_all add: spaced_line_def NEWLINE_def NUL_def)

lemma hd_replicate_append: "0 < n \<Longrightarrow> hd (replicate n x @ ys) = x"
  by (cases n) simp_all

lemma not_skip_lineI:
  assumes "hd l \<noteq> CHR ''#''" and "x \<in> set l" and "\<not> is_blank x"
  shows "\<not> skip_line l"
proof
  assume s: "skip_line l"
  from assms(2) obtain a r where l: "l = a # r"
    by (cases l) auto
  from s assms(1) have "length (takeWhile is_blank l) = length l"
    by (simp add: skip_line_def l)
  then have "takeWhile is_blank l = l"
    by (metis takeWhile_eq_take take_all order_refl)
  then have "\<forall>y \<in> set l. is_blank y"
    by (metis set_takeWhileD)
  with assms(2,3) show False
    by blast
qed

lemma not_section_headerI: "l \<noteq> [] \<Longrightarrow> hd l \<noteq> CHR ''['' \<Longrightarrow> \<not> section_header l"
  by (cases l) (simp_all add: section_header_def)

lemma spaced_head_body: "loop_body spaced_head ([], c) = ([], c)"
proof -
  have l: "line_of spaced_head = spaced_head"
    using spaced_head_facts(2,1) by (rule line_of_plain)
  have h: "hd spaced_head = CHR '' ''"
    unfolding spaced_head_def by (rule hd_replicate_append) simp
  have ne: "spaced_head \<noteq> []"
    using spaced_head_facts(3) by auto
  have "\<not> skip_line spaced_head"
    using _ spaced_head_facts(5) by (rule not_skip_lineI) (simp_all add: h is_blank_def TAB_def)
  moreover have "\<not> section_header spaced_head"
    using ne by (rule not_section_headerI) (simp add: h)
  ultimately show ?thesis
    using bare_line_dropped [of spaced_head "[]" c] spaced_head_facts(4) by (simp add: l)
qed

lemma spaced_line_split:
  "line_of spaced_line
     = (replicate 1010 CHR '' '' @ ''home_ac_interval'') @ CHR ''='' # ''abc''"
  using spaced_line_facts by (simp add: line_of_plain) (simp add: spaced_line_def spaced_head_def)

lemma long_line_value_is_lost:
  "file_lines spaced_file = [spaced_line]
   \<and> sets_field Home_ac_interval spaced_line
   \<and> no_number (value_of (line_of spaced_line))
   \<and> field_value Home_ac_interval
        (snd (load_config (file_fs spaced_file) (zero_config example_path))) = Number 15"
proof -
  let ?d = "set_defaults (zero_config example_path)"
  have 1: "file_lines spaced_file = [spaced_line]"
    unfolding spaced_file_def
    using file_lines_newline [OF spaced_line_facts(1), of "[]"] by (simp add: file_lines_Nil)
  have k: "CHR ''='' \<notin> set (replicate 1010 CHR '' '' @ ''home_ac_interval'')"
    by (simp only: set_append Un_iff) simp
  have "dropWhile is_blank (replicate 1010 CHR '' '' @ ''home_ac_interval'')
      = dropWhile is_blank ''home_ac_interval''"
    by (intro dropWhile_append2) (simp add: is_blank_def)
  then have k': "dropWhile is_blank (replicate 1010 CHR '' '' @ ''home_ac_interval'')
      = field_name Home_ac_interval"
    by (simp add: is_blank_def TAB_def)
  have 2: "sets_field Home_ac_interval spaced_line"
    using spaced_line_split k k' by (rule sets_fieldI)
  have "value_of (line_of spaced_line) = dropWhile is_blank ''abc''"
    using spaced_line_split k k' by (rule sets_fieldI)
  moreover have "no_number (dropWhile is_blank ''abc'')"
    by code_simp
  ultimately have 3: "no_number (value_of (line_of spaced_line))"
    by simp
  have "load_loop spaced_file ([], ?d) = load_loop (''val=abc'' @ [NEWLINE]) (loop_body spaced_head ([], ?d))"
    unfolding spaced_file_def spaced_line_def append_assoc
    using spaced_head_facts(1,3) by (rule load_loop_cut)
  also have "\<dots> = loop_body ''val=abc'' ([], ?d)"
    unfolding spaced_head_body by (intro load_loop_one_line) (simp_all add: NEWLINE_def)
  also have "\<dots> = ([], ?d)"
    by (simp add: loop_body_def Let_def line_of_def c_str_def skip_line_def section_header_def
        NUL_def NEWLINE_def is_blank_def TAB_def key_of_def value_of_def assign_key_def)
  finally have "snd (load_config (file_fs spaced_file) (zero_config example_path)) = ?d"
    by (simp add: load_config_def file_fs_def zero_config_def)
  then have 4: "field_value Home_ac_interval
        (snd (load_config (file_fs spaced_file) (zero_config example_path))) = Number 15"
    by (simp add: set_defaults_def)
  show ?thesis
    using 1 2 3 4 by blast
qed


subsection \<open>Lines that contain the equals sign, in a file\<close>


lemma section_name_bracketed:
  "section_name (CHR ''['' # x @ '']'') = take 62 x"
proof (cases "length x \<le> 62")
  case True
  then show ?thesis
    by (simp add: section_name_def strncpy_def)
next
  case False
  then have "butlast (take 63 x) = take 62 x"
    by (simp add: butlast_take)
  with False show ?thesis
    by (simp add: section_name_def strncpy_def)
qed




end
